theory Spec2Isabelle
  imports Complex_Main "HOL-Library.Sublist"
begin

section \<open>Strings and numbers of the host language\<close>

text \<open>
  A JavaScript string is modelled as a \<^typ>\<open>string\<close>; a thrown value is always an
  \<open>Error\<close> object in this code base and is modelled by its message.  Numbers that the
  program prints are whole (HTTP status codes, lengths), so they are rendered in decimal.
\<close>

datatype thrown = Error string

fun message :: "thrown \<Rightarrow> string" where
  "message (Error m) = m"

definition digit_char :: "nat \<Rightarrow> char" where
  "digit_char d = ''0123456789'' ! d"

fun show_nat :: "nat \<Rightarrow> string" where
  "show_nat n = (if n < 10 then [digit_char n] else show_nat (n div 10) @ [digit_char (n mod 10)])"

declare show_nat.simps [simp del]

definition show_int :: "int \<Rightarrow> string" where
  "show_int i = (if i < 0 then CHR ''-'' # show_nat (nat (- i)) else show_nat (nat i))"

text \<open>\<open>String.prototype.trim\<close>, restricted to the ASCII white space characters.\<close>

definition is_space :: "char \<Rightarrow> bool" where
  "is_space c \<longleftrightarrow> c \<in> set [CHR '' '', CHR 0x09, CHR 0x0A, CHR 0x0B, CHR 0x0C, CHR 0x0D]"

definition trim :: "string \<Rightarrow> string" where
  "trim s = rev (dropWhile is_space (rev (dropWhile is_space s)))"

text \<open>\<open>s.replace(/\/+$/, "")\<close>: all trailing slashes are removed.\<close>

definition strip_trailing_slashes :: "string \<Rightarrow> string" where
  "strip_trailing_slashes s = rev (dropWhile (\<lambda>c. c = CHR ''/'') (rev s))"

text \<open>\<open>s.replace(/,/g, "")\<close>: every comma is removed.\<close>

definition remove_commas :: "string \<Rightarrow> string" where
  "remove_commas s = filter (\<lambda>c. c \<noteq> CHR '','') s"

text \<open>\<open>s.startsWith(p)\<close> is \<^const>\<open>prefix\<close>; \<open>s.includes(p)\<close> is \<^const>\<open>sublist\<close>.\<close>

definition lower_char :: "char \<Rightarrow> char" where
  "lower_char c =
     (case map_of (zip ''ABCDEFGHIJKLMNOPQRSTUVWXYZ'' ''abcdefghijklmnopqrstuvwxyz'') c of
        Some d \<Rightarrow> d
      | None \<Rightarrow> c)"

section \<open>Mirror Fetcher (\<open>fetchHtmlWithFallback\<close>)\<close>

record FetchOptions =
  instances :: "string list"
  timeoutMs :: int
  retriesPerInstance :: int

text \<open>
  What one call of \<open>fetch\<close> followed by \<open>res.text()\<close> can do: reject (transport error,
  abort by the timeout, unreadable body), or deliver a response with its \<open>ok\<close> flag,
  status, status text, body and final URL.
\<close>

datatype http_outcome =
  Rejected string
  | Responded bool int string string string

text \<open>
  The network is an oracle: the outcome of the \<open>n\<close>-th GET request of a run, sent to a
  given URL.  Each request that the fetcher sends is recorded, with the position of the
  mirror in the cleaned list, the attempt number and the URL; so is every back-off delay.
\<close>

type_synonym network = "nat \<Rightarrow> string \<Rightarrow> http_outcome"

record request =
  mirror :: nat
  attempt :: int
  target :: string

record wire =
  requests :: "request list"
  slept :: "int list"
  lastError :: "thrown option"

record fetched =
  html :: string
  instanceUsed :: string
  finalUrl :: string

definition cleanInstances :: "string list \<Rightarrow> string list" where
  "cleanInstances xs = map strip_trailing_slashes (filter (\<lambda>s. s \<noteq> []) (map trim xs))"

text \<open>The body of the \<open>try\<close> block of one attempt, given what the network did.\<close>

fun attemptOnce :: "http_outcome \<Rightarrow> thrown + (string \<times> string)" where
  "attemptOnce (Rejected m) = Inl (Error m)"
| "attemptOnce (Responded ok status statusText body url) =
     (if \<not> ok then Inl (Error (''HTTP '' @ show_int status @ '' '' @ statusText))
      else if body = [] \<or> length body < 100
        then Inl (Error (''Empty or invalid response ('' @ show_nat (length body) @ '' bytes)''))
      else if sublist ''Verifying your browser'' body
        then Inl (Error ''Got 'Verifying your browser' challenge'')
      else Inr (body, url))"

text \<open>\<open>/^https?:\/\//i.test(pathOrUrl)\<close>\<close>

definition isAbsolute :: "string \<Rightarrow> bool" where
  "isAbsolute s \<longleftrightarrow>
     prefix ''http://'' (map lower_char (take 7 s)) \<or> prefix ''https://'' (map lower_char (take 8 s))"

text \<open>The inner loop: \<open>for (let attempt = 0; attempt <= opts.retriesPerInstance; attempt++)\<close>.\<close>

function attemptLoop ::
  "network \<Rightarrow> int \<Rightarrow> nat \<Rightarrow> string \<Rightarrow> string \<Rightarrow> int \<Rightarrow> wire \<Rightarrow> fetched option \<times> wire" where
  "attemptLoop net retries ix base url att w =
     (if att \<le> retries then
        (let w1 = w\<lparr>requests := requests w @ [\<lparr>mirror = ix, attempt = att, target = url\<rparr>]\<rparr>
         in case attemptOnce (net (length (requests w)) url) of
              Inr (body, final) \<Rightarrow>
                (Some \<lparr>html = body, instanceUsed = base, finalUrl = final\<rparr>, w1)
            | Inl err \<Rightarrow>
                attemptLoop net retries ix base url (att + 1)
                  (w1\<lparr>lastError := Some err,
                      slept := (if att < retries then slept w1 @ [250 * (att + 1)] else slept w1)\<rparr>))
      else (None, w))"
  by pat_completeness auto
termination
  by (relation "measure (\<lambda>(net, retries, ix, base, url, att, w). nat (retries + 1 - att))") auto

declare attemptLoop.simps [simp del]

text \<open>The outer loop: \<open>for (const base of instances)\<close>.\<close>

fun instanceLoop ::
  "network \<Rightarrow> int \<Rightarrow> bool \<Rightarrow> string \<Rightarrow> string \<Rightarrow> nat \<Rightarrow> string list \<Rightarrow> wire
     \<Rightarrow> fetched option \<times> wire" where
  "instanceLoop net retries isAbs pathOrUrl path ix [] w = (None, w)"
| "instanceLoop net retries isAbs pathOrUrl path ix (base # rest) w =
     (let url = (if isAbs then pathOrUrl
                 else base @ (if prefix ''/'' path then [] else ''/'') @ path)
      in case attemptLoop net retries ix base url 0 w of
           (Some r, w') \<Rightarrow> (Some r, w')
         | (None, w') \<Rightarrow> instanceLoop net retries isAbs pathOrUrl path (Suc ix) rest w')"

text \<open>
  \<open>new URL(u).pathname + new URL(u).search\<close> is a parameter \<open>pathOf\<close>: it yields
  \<open>None\<close> where the constructor throws its \<open>TypeError\<close>.
\<close>

definition lastErrorMessage :: "thrown option \<Rightarrow> string" where
  "lastErrorMessage e = (case e of Some err \<Rightarrow> message err | None \<Rightarrow> ''Unknown error: undefined'')"

definition fetchHtmlWithFallback ::
  "(string \<Rightarrow> string option) \<Rightarrow> network \<Rightarrow> string \<Rightarrow> FetchOptions \<Rightarrow> wire
     \<Rightarrow> (thrown + fetched) \<times> wire" where
  "fetchHtmlWithFallback pathOf net pathOrUrl opts w =
     (let insts = cleanInstances (instances opts) in
      if length insts = 0 then
        (Inl (Error ''No Nitter instances provided. Set NITTER_INSTANCES in .env or pass --instances''), w)
      else
        (let isAbs = isAbsolute pathOrUrl in
         case (if isAbs then pathOf pathOrUrl else Some pathOrUrl) of
           None \<Rightarrow> (Inl (Error ''Invalid URL''), w)
         | Some path \<Rightarrow>
             (case instanceLoop net (retriesPerInstance opts) isAbs pathOrUrl path 0 insts
                     (w\<lparr>lastError := None\<rparr>) of
                (Some r, w') \<Rightarrow> (Inr r, w')
              | (None, w') \<Rightarrow>
                  (Inl (Error (''All Nitter instances failed. Last error: ''
                               @ lastErrorMessage (lastError w'))), w'))))"

subsection \<open>The fetch order in the words of the specification\<close>

text \<open>
  The URL requested for a mirror, and the schedule of a call: the mirrors in order, each
  with the attempts \<open>0, \<dots>, retriesPerInstance\<close>.  \<open>firstPlausible\<close> walks a schedule
  and stops at the first attempt that yields a plausible document.
\<close>

definition requestUrl :: "bool \<Rightarrow> string \<Rightarrow> string \<Rightarrow> string \<Rightarrow> string" where
  "requestUrl isAbs pathOrUrl path base =
     (if isAbs then pathOrUrl else base @ (if prefix ''/'' path then [] else ''/'') @ path)"

definition mirrorAttempts :: "int \<Rightarrow> nat \<Rightarrow> string \<Rightarrow> string \<Rightarrow> int \<Rightarrow> (request \<times> string) list" where
  "mirrorAttempts retries ix base url from =
     map (\<lambda>a. (\<lparr>mirror = ix, attempt = a, target = url\<rparr>, base)) [from..retries]"

fun schedule :: "int \<Rightarrow> bool \<Rightarrow> string \<Rightarrow> string \<Rightarrow> nat \<Rightarrow> string list \<Rightarrow> (request \<times> string) list" where
  "schedule retries isAbs pathOrUrl path ix [] = []"
| "schedule retries isAbs pathOrUrl path ix (base # rest) =
     mirrorAttempts retries ix base (requestUrl isAbs pathOrUrl path base) 0
     @ schedule retries isAbs pathOrUrl path (Suc ix) rest"

fun firstPlausible :: "network \<Rightarrow> nat \<Rightarrow> (request \<times> string) list \<Rightarrow> fetched option \<times> request list" where
  "firstPlausible net n [] = (None, [])"
| "firstPlausible net n ((q, base) # qs) =
     (case attemptOnce (net n (target q)) of
        Inr (body, final) \<Rightarrow> (Some \<lparr>html = body, instanceUsed = base, finalUrl = final\<rparr>, [q])
      | Inl err \<Rightarrow> (case firstPlausible net (Suc n) qs of (r, tr) \<Rightarrow> (r, q # tr)))"

section \<open>Document Extractor\<close>

text \<open>
  Counters are JavaScript numbers.  \<open>Number(s)\<close> is a parameter of the model; what it
  returns is a finite value (modelled as a rational), \<open>NaN\<close> or an infinity.
\<close>

datatype js_number = Finite rat | NaN | PosInfinity | NegInfinity

fun isFinite :: "js_number \<Rightarrow> bool" where
  "isFinite (Finite x) = True"
| "isFinite other = False"

definition parseCount :: "(string \<Rightarrow> js_number) \<Rightarrow> string option \<Rightarrow> rat option" where
  "parseCount toNumber raw =
     (case raw of
        None \<Rightarrow> None
      | Some r \<Rightarrow>
          if r = [] then None
          else (let trimmed = remove_commas (trim r) in
                if trimmed = [] then None
                else (case toNumber trimmed of Finite n \<Rightarrow> Some n | other \<Rightarrow> None)))"

record TweetResult =
  tweetId :: string
  tweetUrl :: string
  tweetText :: string
  createdAt :: "int option"
  authorHandle :: "string option"
  authorName :: "string option"
  replies :: "rat option"
  retweets :: "rat option"
  quotes :: "rat option"
  likes :: "rat option"
  matchedKeywords :: "string list option"
  matchedDomains :: "string list option"

text \<open>
  What the selectors of the HTML library find in one \<open>.timeline-item\<close>: the text of the
  content element, the \<open>href\<close> and \<open>title\<close> attributes of the date link, the texts of
  the name elements and of the four statistics.
\<close>

record timeline_item =
  contentText :: string
  dateHref :: "string option"
  dateTitle :: "string option"
  usernameText :: string
  fullnameText :: string
  commentStat :: string
  retweetStat :: string
  quoteStat :: string
  heartStat :: string

text \<open>
  The parts of the platform that the code calls: \<open>new URL(u).pathname + new URL(u).search\<close>
  (\<open>None\<close> where the constructor throws), the selections of the HTML library, \<open>Number\<close>,
  the time value of \<open>new Date(title.replace(" \<cdot> ", " "))\<close> (\<open>None\<close> where it is
  \<open>NaN\<close>; a creation time is kept as this time value), and \<open>encodeURIComponent\<close>.
\<close>

record platform =
  urlPath :: "string \<Rightarrow> string option"
  timelineItems :: "string \<Rightarrow> timeline_item list"
  showMoreHref :: "string \<Rightarrow> string option"
  toNumber :: "string \<Rightarrow> js_number"
  titleTime :: "string \<Rightarrow> int option"
  encodeURIComponent :: "string \<Rightarrow> string"

text \<open>\<open>url.split("/").pop()\<close>: what follows the last slash.\<close>

definition lastSegment :: "string \<Rightarrow> string" where
  "lastSegment s = rev (takeWhile (\<lambda>c. c \<noteq> CHR ''/'') (rev s))"

definition nonEmpty :: "string \<Rightarrow> string option" where
  "nonEmpty s = (if s = [] then None else Some s)"

definition extractTweet :: "platform \<Rightarrow> string \<Rightarrow> timeline_item \<Rightarrow> TweetResult option" where
  "extractTweet pf baseUsed el =
     (let txt = trim (contentText el) in
      if txt = [] then None
      else
        (let href = (case dateHref el of None \<Rightarrow> [] | Some h \<Rightarrow> h);
             u = (if href \<noteq> []
                  then (if prefix ''http'' href then href
                        else baseUsed @ (if prefix ''/'' href then [] else ''/'') @ href)
                  else []);
             i = (if u \<noteq> [] then (if lastSegment u \<noteq> [] then lastSegment u else u)
                  else take 32 txt)
         in Some \<lparr>tweetId = i, tweetUrl = u, tweetText = txt,
                  createdAt = (case dateTitle el of
                                 None \<Rightarrow> None
                               | Some t \<Rightarrow> if t = [] then None else titleTime pf t),
                  authorHandle = nonEmpty (trim (usernameText el)),
                  authorName = nonEmpty (trim (fullnameText el)),
                  replies = parseCount (toNumber pf) (Some (commentStat el)),
                  retweets = parseCount (toNumber pf) (Some (retweetStat el)),
                  quotes = parseCount (toNumber pf) (Some (quoteStat el)),
                  likes = parseCount (toNumber pf) (Some (heartStat el)),
                  matchedKeywords = None, matchedDomains = None\<rparr>))"

definition extractTweetsFromHtml :: "platform \<Rightarrow> string \<Rightarrow> string \<Rightarrow> TweetResult list" where
  "extractTweetsFromHtml pf doc baseUsed = List.map_filter (extractTweet pf baseUsed) (timelineItems pf doc)"

definition extractShowMorePath :: "platform \<Rightarrow> string \<Rightarrow> thrown + string option" where
  "extractShowMorePath pf doc =
     (case showMoreHref pf doc of
        None \<Rightarrow> Inr None
      | Some href \<Rightarrow>
          if href = [] then Inr None
          else if prefix ''http'' href
            then (case urlPath pf href of None \<Rightarrow> Inl (Error ''Invalid URL'') | Some p \<Rightarrow> Inr (Some p))
          else Inr (Some href))"

section \<open>Search Aggregator (\<open>searchNitterGlobal\<close>)\<close>

record SearchResponse =
  query :: string
  instanceUsed' :: string
  fetchedAt :: int
  results :: "TweetResult list"
  error :: "string option"

text \<open>
  The variables of the page loop.  \<open>fetchedPaths\<close> is not a variable of the source: it
  records the argument of every call of the fetcher, so that the calls can be counted.
\<close>

record pages =
  collected :: "TweetResult list"
  instanceUsedForLastFetch :: string
  nextPath :: "string option"
  page :: nat
  fetchedPaths :: "string list"
  onWire :: wire

text \<open>The inner loop over the tweets of one page, with its \<open>break\<close> and \<open>continue\<close>.\<close>

fun appendPage :: "int \<Rightarrow> TweetResult list \<Rightarrow> TweetResult list \<Rightarrow> TweetResult list" where
  "appendPage limit acc [] = acc"
| "appendPage limit acc (t # ts) =
     (if int (length acc) \<ge> limit then acc
      else if (\<exists>r \<in> set acc. tweetId r = tweetId t) then appendPage limit acc ts
      else appendPage limit (acc @ [t]) ts)"

text \<open>
  \<open>for (let page = 0; page < 10 && nextPath && results.length < limit; page++)\<close>.
  The first component of the result is the exception that left the loop, if any.
\<close>

function pageLoop ::
  "platform \<Rightarrow> network \<Rightarrow> int \<Rightarrow> FetchOptions \<Rightarrow> pages \<Rightarrow> thrown option \<times> pages" where
  "pageLoop pf net limit opts s =
     (case nextPath s of
        None \<Rightarrow> (None, s)
      | Some path \<Rightarrow>
          if page s < 10 \<and> path \<noteq> [] \<and> int (length (collected s)) < limit then
            (case fetchHtmlWithFallback (urlPath pf) net path opts (onWire s) of
               (Inl err, w') \<Rightarrow> (Some err, s\<lparr>fetchedPaths := fetchedPaths s @ [path], onWire := w'\<rparr>)
             | (Inr got, w') \<Rightarrow>
                 (let s1 = s\<lparr>fetchedPaths := fetchedPaths s @ [path], onWire := w',
                             instanceUsedForLastFetch := instanceUsed got,
                             collected := appendPage limit (collected s)
                                (extractTweetsFromHtml pf (html got) (instanceUsed got))\<rparr>
                  in if int (length (collected s1)) < limit
                     then (case extractShowMorePath pf (html got) of
                             Inl err \<Rightarrow> (Some err, s1)
                           | Inr np \<Rightarrow> pageLoop pf net limit opts (s1\<lparr>nextPath := np, page := Suc (page s)\<rparr>))
                     else pageLoop pf net limit opts (s1\<lparr>nextPath := None, page := Suc (page s)\<rparr>)))
          else (None, s))"
  by pat_completeness auto
termination
  by (relation "measure (\<lambda>(pf, net, limit, opts, s). 10 - page s)") auto

declare pageLoop.simps [simp del]

definition firstPath :: "platform \<Rightarrow> string \<Rightarrow> string" where
  "firstPath pf q = ''/search?f=tweets&q='' @ encodeURIComponent pf q"

definition searchLoop ::
  "platform \<Rightarrow> network \<Rightarrow> string \<Rightarrow> int \<Rightarrow> FetchOptions \<Rightarrow> wire \<Rightarrow> thrown option \<times> pages" where
  "searchLoop pf net q limit opts w =
     pageLoop pf net limit opts
       \<lparr>collected = [], instanceUsedForLastFetch = [], nextPath = Some (firstPath pf q),
        page = 0, fetchedPaths = [], onWire = w\<rparr>"

text \<open>\<open>instanceUsedForLastFetch || cleanInstances(opts.instances)[0] || ""\<close>\<close>

definition reportedInstance :: "string \<Rightarrow> FetchOptions \<Rightarrow> string" where
  "reportedInstance used opts =
     (if used \<noteq> [] then used
      else (case cleanInstances (instances opts) of [] \<Rightarrow> [] | m # ms \<Rightarrow> m))"

text \<open>
  The function returns from its \<open>catch\<close> block when the loop was left by an exception, and
  after the loop otherwise; \<open>now\<close> is the clock reading for \<open>fetchedAt\<close>.
\<close>

definition searchNitterGlobal ::
  "platform \<Rightarrow> network \<Rightarrow> int \<Rightarrow> string \<Rightarrow> int \<Rightarrow> FetchOptions \<Rightarrow> wire \<Rightarrow> SearchResponse \<times> wire" where
  "searchNitterGlobal pf net now q limit opts w =
     (case searchLoop pf net q limit opts w of
        (Some err, s) \<Rightarrow>
          (\<lparr>query = q, instanceUsed' = reportedInstance (instanceUsedForLastFetch s) opts,
            fetchedAt = now, results = collected s,
            error = Some (''Failed after fetching '' @ show_nat (length (collected s))
                          @ '' results: '' @ message err)\<rparr>, onWire s)
      | (None, s) \<Rightarrow>
          (\<lparr>query = q, instanceUsed' = reportedInstance (instanceUsedForLastFetch s) opts,
            fetchedAt = now, results = collected s, error = None\<rparr>, onWire s))"

section \<open>Monitor Engine (\<open>processMonitor\<close>, \<open>runMonitors\<close>)\<close>

record TweetStats =
  likes' :: rat
  retweets' :: rat
  replies' :: rat
  lastChecked :: int

record MonitorState =
  seenTweets :: "string \<rightharpoonup> TweetStats"

record MonitorConfig =
  key :: string
  query' :: string
  label :: string

text \<open>
  What the enrichment service adds to a tweet, and what the notification sink does with
  one webhook request: the request is rejected, or it is answered with the \<open>ok\<close> flag,
  the status, the status text and a body.
\<close>

record AccountInfo =
  followersCount :: "rat option"
  followingCount :: "rat option"
  followsUs :: "bool option"
  networkStatus :: "string option"

datatype sink_outcome =
  SinkRejected string
  | SinkResponded bool int string string

text \<open>The request of \<open>postToDiscord\<close> and the check of its response.\<close>

fun deliver :: "sink_outcome \<Rightarrow> thrown + unit" where
  "deliver (SinkRejected m) = Inl (Error m)"
| "deliver (SinkResponded ok status statusText body) =
     (if \<not> ok
      then Inl (Error (''Discord webhook failed: '' @ show_int status @ '' '' @ statusText
                       @ '' - '' @ body))
      else Inr ())"

text \<open>
  \<open>postToDiscord\<close> of \<open>src/discord.ts\<close>, the module that the worker imports as
  \<open>./discord.js\<close>: the request and the check sit in a \<open>try\<close> block whose \<open>catch\<close> only
  logs, so the call returns normally whatever the sink did.
\<close>

definition postToDiscord :: "sink_outcome \<Rightarrow> thrown + unit" where
  "postToDiscord outcome = (case deliver outcome of Inl err \<Rightarrow> Inr () | Inr u \<Rightarrow> Inr ())"

text \<open>
  The repository also holds an earlier \<open>postToDiscord\<close> without the \<open>try\<close> block, written
  for a worker that wrapped each call in its own \<open>try\<close>.  There the failure leaves the
  function as an exception.
\<close>

definition postToDiscord_uncaught :: "sink_outcome \<Rightarrow> thrown + unit" where
  "postToDiscord_uncaught outcome = deliver outcome"

datatype alertReason = NewTweetFound | TractionSpike rat rat

record alert =
  payload :: TweetResult
  accountInfo :: "AccountInfo option"
  monitorLabel :: string
  reason :: alertReason

text \<open>
  The settings that \<open>processMonitor\<close> reads from the environment: whether the enrichment
  key is set, what \<open>enrichTweets\<close> does for a tweet, and the like threshold
  (\<open>TRACTION_THRESHOLD_LIKES\<close>, 5 when unset).
\<close>

record settings =
  enrichKey :: bool
  enrich :: "TweetResult \<Rightarrow> thrown + AccountInfo option"
  tractionThreshold :: rat

text \<open>
  The memory of one cycle: the monitor state, every alert handed to \<open>postToDiscord\<close>
  together with whether the sink accepted it, and the requests on the wire.
\<close>

record cycle =
  monitorState :: MonitorState
  outbox :: "(alert \<times> bool) list"
  cycleWire :: wire

datatype verdict = Skipped | Unchanged | Alerted alertReason

text \<open>\<open>x || 0\<close> and \<open>x || 1\<close> on an optional number.\<close>

definition orZero :: "rat option \<Rightarrow> rat" where
  "orZero x = (case x of None \<Rightarrow> 0 | Some n \<Rightarrow> if n = 0 then 0 else n)"

definition orOne :: "rat \<Rightarrow> rat" where
  "orOne x = (if x = 0 then 1 else x)"

definition THREE_DAYS_MS :: int where
  "THREE_DAYS_MS = 3 * 24 * 60 * 60 * 1000"

text \<open>The body of the loop over \<open>res.results\<close>, up to the decision \<open>shouldAlert\<close>.\<close>

definition decide :: "rat \<Rightarrow> int \<Rightarrow> MonitorState \<Rightarrow> TweetResult \<Rightarrow> verdict" where
  "decide threshold now st tweet =
     (if (case createdAt tweet of None \<Rightarrow> False | Some tweetTime \<Rightarrow> now - tweetTime > THREE_DAYS_MS)
      then Skipped
      else
        (let currentLikes = orZero (likes tweet) in
         case seenTweets st (tweetId tweet) of
           None \<Rightarrow> Alerted NewTweetFound
         | Some prevStats \<Rightarrow>
             if currentLikes \<ge> threshold then
               (let growth = (currentLikes - likes' prevStats) / orOne (likes' prevStats) in
                if growth \<ge> 1 / 2 \<and> currentLikes - likes' prevStats \<ge> 5
                then Alerted (TractionSpike (likes' prevStats) currentLikes)
                else Unchanged)
             else Unchanged))"

text \<open>The entry written at the end of the loop body.\<close>

definition observed :: "int \<Rightarrow> TweetResult \<Rightarrow> TweetStats" where
  "observed now tweet =
     \<lparr>likes' = orZero (likes tweet), retweets' = orZero (retweets tweet),
      replies' = orZero (replies tweet), lastChecked = now\<rparr>"

definition updateState :: "int \<Rightarrow> TweetResult \<Rightarrow> cycle \<Rightarrow> cycle" where
  "updateState now tweet c =
     c\<lparr>monitorState := (monitorState c)
          \<lparr>seenTweets := (seenTweets (monitorState c))(tweetId tweet \<mapsto> observed now tweet)\<rparr>\<rparr>"

text \<open>
  One pass of the loop body.  \<open>post\<close> is the imported \<open>postToDiscord\<close>, \<open>sink\<close> tells what
  the sink does with the \<open>n\<close>-th webhook request of the cycle.  An exception of \<open>post\<close> is
  not caught here: it leaves the loop before the entry is written.
\<close>

definition processTweet ::
  "(sink_outcome \<Rightarrow> thrown + unit) \<Rightarrow> settings \<Rightarrow> (nat \<Rightarrow> sink_outcome) \<Rightarrow> int \<Rightarrow> MonitorConfig
     \<Rightarrow> TweetResult \<Rightarrow> cycle \<Rightarrow> thrown option \<times> cycle" where
  "processTweet post env sink now monitor tweet c =
     (case decide (tractionThreshold env) now (monitorState c) tweet of
        Skipped \<Rightarrow> (None, c)
      | Unchanged \<Rightarrow> (None, updateState now tweet c)
      | Alerted why \<Rightarrow>
          (let info = (if enrichKey env
                       then (case enrich env tweet of Inr i \<Rightarrow> i | Inl err \<Rightarrow> None)
                       else None);
               outcome = sink (length (outbox c));
               c1 = c\<lparr>outbox := outbox c @
                       [(\<lparr>payload = tweet, accountInfo = info, monitorLabel = label monitor,
                          reason = why\<rparr>, \<not> isl (deliver outcome))]\<rparr>
           in case post outcome of
                Inl err \<Rightarrow> (Some err, c1)
              | Inr u \<Rightarrow> (None, updateState now tweet c1)))"

fun processTweets ::
  "(sink_outcome \<Rightarrow> thrown + unit) \<Rightarrow> settings \<Rightarrow> (nat \<Rightarrow> sink_outcome) \<Rightarrow> int \<Rightarrow> MonitorConfig
     \<Rightarrow> TweetResult list \<Rightarrow> cycle \<Rightarrow> thrown option \<times> cycle" where
  "processTweets post env sink now monitor [] c = (None, c)"
| "processTweets post env sink now monitor (tweet # rest) c =
     (case processTweet post env sink now monitor tweet c of
        (Some err, c') \<Rightarrow> (Some err, c')
      | (None, c') \<Rightarrow> processTweets post env sink now monitor rest c')"

definition processMonitor ::
  "(sink_outcome \<Rightarrow> thrown + unit) \<Rightarrow> settings \<Rightarrow> platform \<Rightarrow> network \<Rightarrow> (nat \<Rightarrow> sink_outcome)
     \<Rightarrow> int \<Rightarrow> FetchOptions \<Rightarrow> MonitorConfig \<Rightarrow> cycle \<Rightarrow> thrown option \<times> cycle" where
  "processMonitor post env pf net sink now globalOpts monitor c =
     (case searchNitterGlobal pf net now (query' monitor) 50 globalOpts (cycleWire c) of
        (res, w') \<Rightarrow>
          (case error res of
             Some e \<Rightarrow> if e \<noteq> [] then (None, c\<lparr>cycleWire := w'\<rparr>)
                       else processTweets post env sink now monitor (results res) (c\<lparr>cycleWire := w'\<rparr>)
           | None \<Rightarrow> processTweets post env sink now monitor (results res) (c\<lparr>cycleWire := w'\<rparr>)))"

text \<open>
  The loop of \<open>runMonitors\<close> over the configured monitors; \<open>clock k\<close> is the reading of
  \<open>Date.now()\<close> when the \<open>k\<close>-th monitor starts.
\<close>

fun monitorsLoop ::
  "(sink_outcome \<Rightarrow> thrown + unit) \<Rightarrow> settings \<Rightarrow> platform \<Rightarrow> network \<Rightarrow> (nat \<Rightarrow> sink_outcome)
     \<Rightarrow> (nat \<Rightarrow> int) \<Rightarrow> FetchOptions \<Rightarrow> nat \<Rightarrow> MonitorConfig list \<Rightarrow> cycle \<Rightarrow> thrown option \<times> cycle" where
  "monitorsLoop post env pf net sink clock globalOpts k [] c = (None, c)"
| "monitorsLoop post env pf net sink clock globalOpts k (monitor # rest) c =
     (case processMonitor post env pf net sink (clock k) globalOpts monitor c of
        (Some err, c') \<Rightarrow> (Some err, c')
      | (None, c') \<Rightarrow> monitorsLoop post env pf net sink clock globalOpts (Suc k) rest c')"

text \<open>
  \<open>runMonitors\<close>: nothing happens without a webhook URL; otherwise the state returned by
  \<open>loadState\<close> is taken through all monitors and written by \<open>saveState\<close>, unless an
  exception left the loop before.  \<open>saved\<close> is what \<open>saveState\<close> wrote, if it ran.
\<close>

record cycleResult =
  raised :: "thrown option"
  final :: cycle
  saved :: "MonitorState option"

definition runMonitors ::
  "(sink_outcome \<Rightarrow> thrown + unit) \<Rightarrow> string option \<Rightarrow> settings \<Rightarrow> platform \<Rightarrow> network
     \<Rightarrow> (nat \<Rightarrow> sink_outcome) \<Rightarrow> (nat \<Rightarrow> int) \<Rightarrow> FetchOptions \<Rightarrow> MonitorConfig list
     \<Rightarrow> MonitorState \<Rightarrow> wire \<Rightarrow> cycleResult" where
  "runMonitors post webhookUrl env pf net sink clock globalOpts monitors loaded w =
     (let c0 = \<lparr>monitorState = loaded, outbox = [], cycleWire = w\<rparr> in
      if webhookUrl = None \<or> webhookUrl = Some []
      then \<lparr>raised = None, final = c0, saved = None\<rparr>
      else (case monitorsLoop post env pf net sink clock globalOpts 0 monitors c0 of
              (Some err, c) \<Rightarrow> \<lparr>raised = Some err, final = c, saved = None\<rparr>
            | (None, c) \<Rightarrow> \<lparr>raised = None, final = c, saved = Some (monitorState c)\<rparr>))"

text \<open>The growth rule in the words of the specification.\<close>

definition growthPerSpec :: "rat \<Rightarrow> rat \<Rightarrow> rat option \<Rightarrow> bool" where
  "growthPerSpec minLikes stored current =
     (case current of
        None \<Rightarrow> False
      | Some c \<Rightarrow>
          c \<ge> minLikes \<and> c > stored \<and>
          (c - stored) / (if stored = 0 then 1 else stored) \<ge> 1 / 2 \<and>
          c - stored \<ge> 5)"

text \<open>Two cycles that differ at most in what the sink did with the alerts.\<close>

definition sameAlerts :: "cycle \<Rightarrow> cycle \<Rightarrow> bool" where
  "sameAlerts c c' \<longleftrightarrow>
     monitorState c = monitorState c' \<and> map fst (outbox c) = map fst (outbox c') \<and>
     cycleWire c = cycleWire c'"

section \<open>Monitor State Store (\<open>loadState\<close>)\<close>

text \<open>
  The value that \<open>JSON.parse\<close> returns.  An object is the list of its properties in
  their order, which is taken to be the order of insertion; numbers are whole.
\<close>

datatype json =
  JNull
  | JBool bool
  | JNum int
  | JStr string
  | JArr "json list"
  | JObj "(string \<times> json) list"

fun truthy :: "json \<Rightarrow> bool" where
  "truthy JNull = False"
| "truthy (JBool b) = b"
| "truthy (JNum n) = (n \<noteq> 0)"
| "truthy (JStr s) = (s \<noteq> [])"
| "truthy (JArr xs) = True"
| "truthy (JObj kvs) = True"

text \<open>\<open>typeof v === 'object'\<close> for a value that is not \<open>null\<close>.\<close>

fun isObject :: "json \<Rightarrow> bool" where
  "isObject (JArr xs) = True"
| "isObject (JObj kvs) = True"
| "isObject other = False"

text \<open>
  The enumerable own properties of a value, as \<open>Object.keys\<close>, \<open>Object.entries\<close> and
  \<open>for \<dots> in\<close> see them: the properties of an object, the indices of an array or of a
  string, nothing for the other values.
\<close>

fun ownEntries :: "json \<Rightarrow> (string \<times> json) list" where
  "ownEntries (JObj kvs) = kvs"
| "ownEntries (JArr xs) = zip (map show_nat [0..<length xs]) xs"
| "ownEntries (JStr s) = zip (map show_nat [0..<length s]) (map (\<lambda>ch. JStr [ch]) s)"
| "ownEntries other = []"

text \<open>\<open>v[k]\<close> and \<open>v.k\<close> for a key that is not inherited: \<open>None\<close> is \<open>undefined\<close>.\<close>

definition getProp :: "json \<Rightarrow> string \<Rightarrow> json option" where
  "getProp v k = map_of (ownEntries v) k"

text \<open>\<open>obj[k] = v\<close> on a plain object: an existing property keeps its place.\<close>

fun setProp :: "string \<Rightarrow> json \<Rightarrow> (string \<times> json) list \<Rightarrow> (string \<times> json) list" where
  "setProp k v [] = [(k, v)]"
| "setProp k v ((k', v') # rest) = (if k' = k then (k, v) # rest else (k', v') # setProp k v rest)"

text \<open>
  The key under which \<open>obj[id] = \<dots>\<close> stores: a string is its own key; for the other
  values JavaScript's conversion to a string is a parameter.
\<close>

definition propertyKey :: "(json \<Rightarrow> string) \<Rightarrow> json \<Rightarrow> string" where
  "propertyKey toStr v = (case v of JStr s \<Rightarrow> s | other \<Rightarrow> toStr other)"

text \<open>\<open>'likes' in v\<close> for an object \<open>v\<close>.\<close>

definition hasLikes :: "json \<Rightarrow> bool" where
  "hasLikes v \<longleftrightarrow> getProp v ''likes'' \<noteq> None"

definition dummyStats :: "int \<Rightarrow> json" where
  "dummyStats now =
     JObj [(''likes'', JNum 0), (''retweets'', JNum 0), (''replies'', JNum 0), (''lastChecked'', JNum now)]"

definition emptyState :: json where
  "emptyState = JObj [(''seenTweets'', JObj [])]"

text \<open>
  The first migration: every identifier of every array under \<open>lastIds\<close> gets dummy
  statistics (\<open>Array.isArray\<close> is the match on \<open>JArr\<close>); \<open>clock n\<close> is the reading
  of \<open>Date.now()\<close> at its \<open>n\<close>-th call.
\<close>

definition migrateIds ::
  "(json \<Rightarrow> string) \<Rightarrow> (nat \<Rightarrow> int) \<Rightarrow> json list \<Rightarrow> (string \<times> json) list \<times> nat
     \<Rightarrow> (string \<times> json) list \<times> nat" where
  "migrateIds toStr clock ids acc =
     fold (\<lambda>i (seen, n). (setProp (propertyKey toStr i) (dummyStats (clock n)) seen, Suc n)) ids acc"

definition migrateLastIds :: "(json \<Rightarrow> string) \<Rightarrow> (nat \<Rightarrow> int) \<Rightarrow> json \<Rightarrow> json" where
  "migrateLastIds toStr clock lastIds =
     JObj [(''seenTweets'',
            JObj (fst (fold (\<lambda>(k, ids) acc. case ids of JArr xs \<Rightarrow> migrateIds toStr clock xs acc
                                               | other \<Rightarrow> acc)
                         (ownEntries lastIds) ([], 0))))]"

text \<open>The second migration: the maps of all monitors are poured into one.\<close>

definition flatten :: "json \<Rightarrow> json" where
  "flatten seen =
     JObj [(''seenTweets'',
            JObj (fold (\<lambda>(monitorKey, tweets) acc.
                          fold (\<lambda>(tweetId, stats) acc'. setProp tweetId stats acc') (ownEntries tweets) acc)
                       (ownEntries seen) []))]"

text \<open>
  The body of the \<open>try\<close> block of \<open>loadState\<close> after \<open>JSON.parse\<close>, with its \<open>catch\<close>:
  reading a property of \<open>null\<close> throws, and the \<open>catch\<close> answers with the empty state.
\<close>

definition migrate :: "(json \<Rightarrow> string) \<Rightarrow> (nat \<Rightarrow> int) \<Rightarrow> json \<Rightarrow> json" where
  "migrate toStr clock parsed =
     (if parsed = JNull then emptyState
      else if (case getProp parsed ''lastIds'' of None \<Rightarrow> False | Some l \<Rightarrow> truthy l)
        then (case getProp parsed ''lastIds'' of
                None \<Rightarrow> parsed
              | Some l \<Rightarrow> migrateLastIds toStr clock l)
      else
        (let seen = (case getProp parsed ''seenTweets'' of
                       None \<Rightarrow> JObj []
                     | Some v \<Rightarrow> if truthy v then v else JObj [])
         in case ownEntries seen of
              [] \<Rightarrow> parsed
            | (k0, firstVal) # others \<Rightarrow>
                if truthy firstVal \<and> isObject firstVal \<and> \<not> hasLikes firstVal
                then flatten seen
                else parsed))"

text \<open>
  \<open>loadState\<close>: \<open>file\<close> is the content of the state file if it exists, \<open>parse\<close> is
  \<open>JSON.parse\<close>, \<open>None\<close> where it throws.
\<close>

definition loadState ::
  "(json \<Rightarrow> string) \<Rightarrow> (nat \<Rightarrow> int) \<Rightarrow> (string \<Rightarrow> json option) \<Rightarrow> string option \<Rightarrow> json" where
  "loadState toStr clock parse file =
     (case file of
        None \<Rightarrow> emptyState
      | Some raw \<Rightarrow> (case parse raw of None \<Rightarrow> emptyState | Some parsed \<Rightarrow> migrate toStr clock parsed))"

subsection \<open>The persisted shapes\<close>

text \<open>
  An entry as the engine writes it; the flat shape; the shape nested by monitor key; the
  shape that lists identifiers per monitor key under \<open>lastIds\<close>; and the oldest shape, one
  list of identifiers under \<open>seenIds\<close>.
\<close>

definition isNumber :: "json option \<Rightarrow> bool" where
  "isNumber v = (case v of Some (JNum n) \<Rightarrow> True | other \<Rightarrow> False)"

definition isTweetStats :: "json \<Rightarrow> bool" where
  "isTweetStats v \<longleftrightarrow>
     (case v of
        JObj kvs \<Rightarrow> isNumber (map_of kvs ''likes'') \<and> isNumber (map_of kvs ''retweets'') \<and>
                    isNumber (map_of kvs ''replies'') \<and> isNumber (map_of kvs ''lastChecked'')
      | other \<Rightarrow> False)"

definition isEntryMap :: "json \<Rightarrow> bool" where
  "isEntryMap v \<longleftrightarrow> (case v of JObj es \<Rightarrow> list_all (\<lambda>(k, e). isTweetStats e) es | other \<Rightarrow> False)"

definition isIdList :: "json \<Rightarrow> bool" where
  "isIdList v \<longleftrightarrow>
     (case v of JArr xs \<Rightarrow> list_all (\<lambda>x. case x of JStr s \<Rightarrow> True | other \<Rightarrow> False) xs | other \<Rightarrow> False)"

fun flatShape :: "json \<Rightarrow> bool" where
  "flatShape (JObj [(k, JObj es)]) = (k = ''seenTweets'' \<and> isEntryMap (JObj es))"
| "flatShape other = False"

fun nestedShape :: "json \<Rightarrow> bool" where
  "nestedShape (JObj [(k, JObj ms)]) =
     (k = ''seenTweets'' \<and> list_all (\<lambda>(m, tweets). isEntryMap tweets) ms)"
| "nestedShape other = False"

fun lastIdsShape :: "json \<Rightarrow> bool" where
  "lastIdsShape (JObj [(k, JObj ls)]) = (k = ''lastIds'' \<and> list_all (\<lambda>(m, ids). isIdList ids) ls)"
| "lastIdsShape other = False"

fun seenIdsShape :: "json \<Rightarrow> bool" where
  "seenIdsShape (JObj [(k, ids)]) = (k = ''seenIds'' \<and> isIdList ids)"
| "seenIdsShape other = False"

section \<open>Scheduler (\<open>run\<close>)\<close>

text \<open>
  \<open>run\<close> awaits \<open>doPoll\<close> and \<open>doVipCheck\<close> once and then hands the same two awaits, as
  an \<open>async\<close> callback, to \<open>setInterval\<close>.  Each started invocation of that sequence, the
  first one included, is a task; a task awaits one job at a time.  The event loop is
  modelled by its events: the interval timer fires, the monitor cycle that a task awaits
  settles, or the relationship check that a task awaits settles.  The events that end an
  await carry the reading of \<open>Date.now()\<close> taken right after it.
\<close>

datatype job = Polling | CheckingVips

record task =
  initial :: bool
  awaiting :: job

record scheduler =
  tasks :: "task list"
  timerSet :: bool
  lastVipCheck :: int

datatype event =
  Fire
  | PollEnds nat int
  | VipEnds nat bool int

definition schedulerStart :: scheduler where
  "schedulerStart = \<lparr>tasks = [\<lparr>initial = True, awaiting = Polling\<rparr>], timerSet = False, lastVipCheck = 0\<rparr>"

text \<open>
  A task that has run through both awaits is gone; when it was the first one, \<open>run\<close> goes
  on to \<open>setInterval\<close>.
\<close>

definition finish :: "nat \<Rightarrow> scheduler \<Rightarrow> scheduler" where
  "finish i s =
     s\<lparr>tasks := take i (tasks s) @ drop (Suc i) (tasks s),
       timerSet := (timerSet s \<or> initial (tasks s ! i))\<rparr>"

text \<open>
  One event.  \<open>setInterval\<close> calls its callback at every interval and does not look at the
  promise that the callback returned, so \<open>Fire\<close> starts a task whenever the timer is set.
  After \<open>doPoll\<close> the task enters \<open>doVipCheck\<close>, which awaits \<open>checkVips\<close> only if the
  interval (in seconds) has passed since \<open>lastVipCheck\<close>; \<open>lastVipCheck\<close> is written
  only when \<open>checkVips\<close> did not throw.  An event that cannot happen in the state gives
  \<open>None\<close>.
\<close>

definition step :: "int \<Rightarrow> scheduler \<Rightarrow> event \<Rightarrow> scheduler option" where
  "step vipCheckIntervalSeconds s ev =
     (case ev of
        Fire \<Rightarrow>
          if timerSet s then Some (s\<lparr>tasks := tasks s @ [\<lparr>initial = False, awaiting = Polling\<rparr>]\<rparr>)
          else None
      | PollEnds i now \<Rightarrow>
          if i < length (tasks s) \<and> awaiting (tasks s ! i) = Polling then
            (if now - lastVipCheck s \<ge> vipCheckIntervalSeconds * 1000
             then Some (s\<lparr>tasks := (tasks s)[i := (tasks s ! i)\<lparr>awaiting := CheckingVips\<rparr>]\<rparr>)
             else Some (finish i s))
          else None
      | VipEnds i ok now \<Rightarrow>
          if i < length (tasks s) \<and> awaiting (tasks s ! i) = CheckingVips then
            Some (finish i (if ok then s\<lparr>lastVipCheck := now\<rparr> else s))
          else None)"

fun exec :: "int \<Rightarrow> scheduler \<Rightarrow> event list \<Rightarrow> scheduler option" where
  "exec v s [] = Some s"
| "exec v s (ev # evs) = (case step v s ev of None \<Rightarrow> None | Some s' \<Rightarrow> exec v s' evs)"

text \<open>
  Until \<open>setInterval\<close> is called the first run is the only task; afterwards every task is
  a timer tick.
\<close>

definition bootInv :: "scheduler \<Rightarrow> bool" where
  "bootInv s \<longleftrightarrow>
     (if timerSet s then (\<forall>t \<in> set (tasks s). \<not> initial t)
      else (\<exists>j. tasks s = [\<lparr>initial = True, awaiting = j\<rparr>]))"

section \<open>Concrete inputs\<close>

text \<open>Inputs at which the theorems below are instantiated.\<close>

definition demoBody :: string where
  "demoBody = replicate 100 (CHR ''x'')"

definition demoNet :: network where
  "demoNet n u = (if n < 2 then Rejected ''fetch failed'' else Responded True 200 ''OK'' demoBody u)"

definition demoOpts :: FetchOptions where
  "demoOpts = \<lparr>instances = ['' https://a.example/ '', ''  '', ''https://b.example'', ''https://c.example''],
               timeoutMs = 10000, retriesPerInstance = 1\<rparr>"

definition wire0 :: wire where
  "wire0 = \<lparr>requests = [], slept = [], lastError = None\<rparr>"

definition deadNet :: network where
  "deadNet n u = Rejected ''fetch failed''"

definition twoMirrors :: FetchOptions where
  "twoMirrors = \<lparr>instances = [''https://a.example'', ''https://b.example''],
                 timeoutMs = 10000, retriesPerInstance = 1\<rparr>"

text \<open>A two-page source: the second page repeats one identifier of the first.\<close>

definition pageA :: string where
  "pageA = replicate 100 (CHR ''a'')"

definition pageB :: string where
  "pageB = replicate 100 (CHR ''z'')"

definition mkItem :: "string \<Rightarrow> string \<Rightarrow> timeline_item" where
  "mkItem href txt =
     \<lparr>contentText = txt, dateHref = Some href, dateTitle = None, usernameText = ''@u'',
      fullnameText = ''U'', commentStat = [], retweetStat = [], quoteStat = [],
      heartStat = ''1,204''\<rparr>"

definition twoPagePlatform :: platform where
  "twoPagePlatform =
     \<lparr>urlPath = (\<lambda>u. None),
      timelineItems = (\<lambda>doc. if doc = pageA
                             then [mkItem ''/u/status/1'' ''one'', mkItem ''/u/status/2'' ''two'']
                             else [mkItem ''/u/status/2'' ''two'', mkItem ''/u/status/3'' ''three'']),
      showMoreHref = (\<lambda>doc. if doc = pageA then Some ''/search?f=tweets&q=foo&cursor=c1'' else None),
      toNumber = (\<lambda>s. if s = ''1204'' then Finite 1204 else NaN),
      titleTime = (\<lambda>t. None),
      encodeURIComponent = (\<lambda>q. q)\<rparr>"

definition twoPageNet :: network where
  "twoPageNet n u =
     Responded True 200 ''OK'' (if u = ''https://a.example/search?f=tweets&q=foo'' then pageA else pageB) u"

text \<open>The same source when the network dies after the first page.\<close>

definition dyingNet :: network where
  "dyingNet n u = (if n = 0 then Responded True 200 ''OK'' pageA u else Rejected ''fetch failed'')"

text \<open>A source whose continuation always points back to the first page.\<close>

definition cyclicPlatform :: platform where
  "cyclicPlatform = twoPagePlatform\<lparr>showMoreHref := (\<lambda>doc. Some ''/search?f=tweets&q=foo'')\<rparr>"

definition cyclicNet :: network where
  "cyclicNet n u = Responded True 200 ''OK'' pageA u"

text \<open>A stored entry with ten likes, and tweets of the same identifier.\<close>

definition tenLikes :: MonitorState where
  "tenLikes = \<lparr>seenTweets = [''42'' \<mapsto> \<lparr>likes' = 10, retweets' = 1, replies' = 0, lastChecked = 1000\<rparr>]\<rparr>"

definition tweet42 :: "rat option \<Rightarrow> TweetResult" where
  "tweet42 n =
     \<lparr>tweetId = ''42'', tweetUrl = ''https://a.example/u/status/42'', tweetText = ''hello'',
      createdAt = None, authorHandle = Some ''@u'', authorName = None, replies = None,
      retweets = None, quotes = None, likes = n, matchedKeywords = None, matchedDomains = None\<rparr>"

text \<open>Settings, a monitor and a cycle for the stored entry above; a sink that is down.\<close>

definition plainSettings :: settings where
  "plainSettings = \<lparr>enrichKey = False, enrich = (\<lambda>t. Inr None), tractionThreshold = 5\<rparr>"

definition mainMonitor :: MonitorConfig where
  "mainMonitor = \<lparr>key = ''default'', query' = ''foo'', label = ''Main Keywords''\<rparr>"

definition cycleTen :: cycle where
  "cycleTen = \<lparr>monitorState = tenLikes, outbox = [], cycleWire = wire0\<rparr>"

definition sinkDown :: "nat \<Rightarrow> sink_outcome" where
  "sinkDown n = SinkResponded False 503 ''Service Unavailable'' ''down''"

definition sinkUp :: "nat \<Rightarrow> sink_outcome" where
  "sinkUp n = SinkResponded True 204 ''No Content'' []"

text \<open>Persisted states in the two legacy shapes.\<close>

definition statsJson :: "int \<Rightarrow> json" where
  "statsJson n =
     JObj [(''likes'', JNum n), (''retweets'', JNum 0), (''replies'', JNum 0), (''lastChecked'', JNum 1000)]"

definition legacyIds :: json where
  "legacyIds =
     JObj [(''lastIds'', JObj [(''default'', JArr [JStr ''1'', JStr ''2'']), (''links'', JArr [JStr ''2''])])]"

definition legacyNested :: json where
  "legacyNested =
     JObj [(''seenTweets'',
            JObj [(''default'', JObj [(''1'', statsJson 10)]),
                  (''links'', JObj [(''1'', statsJson 12), (''2'', statsJson 3)])])]"

section \<open>Properties of the Mirror Fetcher\<close>

text \<open>The two loops of the fetcher walk the schedule and stop at the first plausible document.\<close>

lemma attemptLoop_refines:
  "attemptLoop net retries ix base url att w = (res, w') \<Longrightarrow>
   \<exists>new. requests w' = requests w @ new \<and>
     firstPlausible net (length (requests w)) (mirrorAttempts retries ix base url att @ rest) =
       (case res of
          Some f \<Rightarrow> (Some f, new)
        | None \<Rightarrow> (case firstPlausible net (length (requests w')) rest of (r, tr) \<Rightarrow> (r, new @ tr)))"
proof (induction net retries ix base url att w arbitrary: res w' rule: attemptLoop.induct)
  case (1 net retries ix base url att w)
  show ?case
  proof (cases "att \<le> retries")
    case False
    with "1.prems" show ?thesis
      by (auto simp: attemptLoop.simps mirrorAttempts_def split: prod.splits option.splits)
  next
    case True
    then have up: "[att..retries] = att # [att + 1..retries]"
      by (simp add: upto_rec1)
    show ?thesis
    proof (cases "attemptOnce (net (length (requests w)) url)")
      case (Inr ok)
      with True "1.prems" show ?thesis
        by (auto simp: attemptLoop.simps[of net retries ix base url att w] mirrorAttempts_def up
                 split: prod.splits option.splits)
    next
      case (Inl err)
      let ?q = "\<lparr>mirror = ix, attempt = att, target = url\<rparr>"
      let ?w1 = "w\<lparr>requests := requests w @ [?q]\<rparr>"
      let ?w2 = "?w1\<lparr>lastError := Some err,
                   slept := (if att < retries then slept ?w1 @ [250 * (att + 1)] else slept ?w1)\<rparr>"
      have "attemptLoop net retries ix base url att w = attemptLoop net retries ix base url (att + 1) ?w2"
        by (subst attemptLoop.simps) (simp add: True Inl Let_def)
      with "1.prems" have run: "attemptLoop net retries ix base url (att + 1) ?w2 = (res, w')"
        by simp
      have len: "length (requests ?w2) = Suc (length (requests w))" "requests ?w2 = requests w @ [?q]"
        by simp_all
      from "1.IH"[OF True refl Inl run]
      obtain new where new: "requests w' = requests ?w2 @ new"
        and fp: "firstPlausible net (length (requests ?w2)) (mirrorAttempts retries ix base url (att + 1) @ rest) =
          (case res of Some f \<Rightarrow> (Some f, new)
           | None \<Rightarrow> (case firstPlausible net (length (requests w')) rest of (r, tr) \<Rightarrow> (r, new @ tr)))"
        by blast
      note fp = fp[unfolded len]
      note new = new[unfolded len]
      have "requests w' = requests w @ (?q # new)" using new by simp
      moreover have "firstPlausible net (length (requests w)) (mirrorAttempts retries ix base url att @ rest) =
          (case res of Some f \<Rightarrow> (Some f, ?q # new)
           | None \<Rightarrow> (case firstPlausible net (length (requests w')) rest of (r, tr) \<Rightarrow> (r, (?q # new) @ tr)))"
        using fp Inl by (simp add: mirrorAttempts_def up split: option.splits prod.splits)
      ultimately show ?thesis by blast
    qed
  qed
qed

lemma instanceLoop_refines:
  "instanceLoop net retries isAbs p path ix bases w = (res, w') \<Longrightarrow>
   \<exists>new. requests w' = requests w @ new \<and>
     firstPlausible net (length (requests w)) (schedule retries isAbs p path ix bases) = (res, new)"
proof (induction bases arbitrary: ix w res w')
  case Nil
  then show ?case by simp
next
  case (Cons base rest)
  let ?url = "requestUrl isAbs p path base"
  obtain r1 w1 where al: "attemptLoop net retries ix base ?url 0 w = (r1, w1)"
    by (cases "attemptLoop net retries ix base ?url 0 w")
  from attemptLoop_refines[OF al, of "schedule retries isAbs p path (Suc ix) rest"]
  obtain new1 where new1: "requests w1 = requests w @ new1"
    and fp1: "firstPlausible net (length (requests w)) (mirrorAttempts retries ix base ?url 0 @ schedule retries isAbs p path (Suc ix) rest) =
       (case r1 of Some f \<Rightarrow> (Some f, new1)
        | None \<Rightarrow> (case firstPlausible net (length (requests w1)) (schedule retries isAbs p path (Suc ix) rest) of (r, tr) \<Rightarrow> (r, new1 @ tr)))"
    by blast
  show ?case
  proof (cases r1)
    case (Some f)
    with al Cons.prems have "res = Some f" "w' = w1"
      by (auto simp: requestUrl_def)
    with Some new1 fp1 show ?thesis by simp
  next
    case None
    with al Cons.prems have "instanceLoop net retries isAbs p path (Suc ix) rest w1 = (res, w')"
      by (auto simp: requestUrl_def)
    from Cons.IH[OF this] obtain new2 where "requests w' = requests w1 @ new2"
      and "firstPlausible net (length (requests w1)) (schedule retries isAbs p path (Suc ix) rest) = (res, new2)"
      by blast
    with None new1 fp1 show ?thesis by simp
  qed
qed

lemma firstPlausible_prefix:
  "firstPlausible net n sched = (r, tr) \<Longrightarrow> prefix tr (map fst sched)"
proof (induction sched arbitrary: n r tr)
  case Nil
  then show ?case by simp
next
  case (Cons qb qs)
  obtain q b where qb: "qb = (q, b)" by (cases qb)
  show ?case
  proof (cases "attemptOnce (net n (target q))")
    case (Inr ok)
    with Cons.prems qb show ?thesis by (auto split: prod.splits)
  next
    case (Inl err)
    obtain r2 tr2 where rec: "firstPlausible net (Suc n) qs = (r2, tr2)"
      by (cases "firstPlausible net (Suc n) qs")
    with Inl Cons.prems qb have "tr = q # tr2" by simp
    with Cons.IH[OF rec] qb show ?thesis by simp
  qed
qed

lemma firstPlausible_earlier_fail:
  "firstPlausible net n sched = (r, tr) \<Longrightarrow> Suc k < length tr \<Longrightarrow>
   isl (attemptOnce (net (n + k) (target (tr ! k))))"
proof (induction sched arbitrary: n r tr k)
  case Nil
  then show ?case by simp
next
  case (Cons qb qs)
  obtain q b where qb: "qb = (q, b)" by (cases qb)
  show ?case
  proof (cases "attemptOnce (net n (target q))")
    case (Inr ok)
    with Cons.prems qb show ?thesis by (auto split: prod.splits)
  next
    case (Inl err)
    obtain r2 tr2 where rec: "firstPlausible net (Suc n) qs = (r2, tr2)"
      by (cases "firstPlausible net (Suc n) qs")
    with Inl Cons.prems qb have tr: "tr = q # tr2" by simp
    show ?thesis
    proof (cases k)
      case 0
      with tr Inl show ?thesis by simp
    next
      case (Suc j)
      with Cons.prems tr have "Suc j < length tr2" by simp
      from Cons.IH[OF rec this] Suc tr show ?thesis by simp
    qed
  qed
qed

lemma firstPlausible_Some:
  "firstPlausible net n sched = (Some f, tr) \<Longrightarrow>
   tr \<noteq> [] \<and> length tr \<le> length sched \<and>
   instanceUsed f = snd (sched ! (length tr - 1)) \<and>
   attemptOnce (net (n + length tr - 1) (target (last tr))) = Inr (html f, finalUrl f)"
proof (induction sched arbitrary: n tr)
  case Nil
  then show ?case by simp
next
  case (Cons qb qs)
  obtain q b where qb: "qb = (q, b)" by (cases qb)
  show ?case
  proof (cases "attemptOnce (net n (target q))")
    case (Inr ok)
    with Cons.prems qb show ?thesis by (auto split: prod.splits)
  next
    case (Inl err)
    obtain r2 tr2 where rec: "firstPlausible net (Suc n) qs = (r2, tr2)"
      by (cases "firstPlausible net (Suc n) qs")
    with Inl Cons.prems qb have tr: "tr = q # tr2" "r2 = Some f" by simp_all
    from Cons.IH[OF rec[unfolded tr(2)]] tr show ?thesis
      by (auto simp: nth_Cons split: nat.splits)
  qed
qed

lemma firstPlausible_None:
  "firstPlausible net n sched = (None, tr) \<Longrightarrow>
   tr = map fst sched \<and> (\<forall>k < length sched. isl (attemptOnce (net (n + k) (target (fst (sched ! k))))))"
proof (induction sched arbitrary: n tr)
  case Nil
  then show ?case by simp
next
  case (Cons qb qs)
  obtain q b where qb: "qb = (q, b)" by (cases qb)
  show ?case
  proof (cases "attemptOnce (net n (target q))")
    case (Inr ok)
    with Cons.prems qb show ?thesis by (auto split: prod.splits)
  next
    case (Inl err)
    obtain r2 tr2 where rec: "firstPlausible net (Suc n) qs = (r2, tr2)"
      by (cases "firstPlausible net (Suc n) qs")
    with Inl Cons.prems qb have tr: "tr = q # tr2" "r2 = None" by simp_all
    from Cons.IH[OF rec[unfolded tr(2)]] tr qb Inl show ?thesis
      by (auto simp: nth_Cons split: nat.splits)
  qed
qed

lemma firstPlausible_skip_failures:
  "\<forall>k < length qs. isl (attemptOnce (net (n + k) (target (fst (qs ! k))))) \<Longrightarrow>
   firstPlausible net n (qs @ rest) =
     (case firstPlausible net (n + length qs) rest of (r, tr) \<Rightarrow> (r, map fst qs @ tr))"
proof (induction qs arbitrary: n)
  case Nil
  then show ?case by simp
next
  case (Cons qb qs)
  obtain q b where qb: "qb = (q, b)" by (cases qb)
  from Cons.prems have "isl (attemptOnce (net (n + 0) (target (fst ((qb # qs) ! 0)))))"
    by blast
  then obtain err where err: "attemptOnce (net n (target q)) = Inl err"
    using qb by (cases "attemptOnce (net n (target q))") auto
  have "\<forall>k < length qs. isl (attemptOnce (net (Suc n + k) (target (fst (qs ! k)))))"
  proof (intro allI impI)
    fix k assume "k < length qs"
    then have "Suc k < length (qb # qs)" by simp
    with Cons.prems have "isl (attemptOnce (net (n + Suc k) (target (fst ((qb # qs) ! Suc k)))))"
      by blast
    then show "isl (attemptOnce (net (Suc n + k) (target (fst (qs ! k)))))" by simp
  qed
  from Cons.IH[OF this] err qb show ?case
    by (simp split: prod.splits)
qed

lemma mirrorAttempts_length: "length (mirrorAttempts r ix base url 0) = nat (r + 1)"
  by (simp add: mirrorAttempts_def)

lemma mirrorAttempts_mirror:
  "q \<in> set (map fst (mirrorAttempts r ix base url a)) \<Longrightarrow> mirror q = ix \<and> target q = url"
  by (auto simp: mirrorAttempts_def)

lemma schedule_mirror_count:
  "length (filter (\<lambda>q. mirror q = i) (map fst (schedule r isAbs p path ix bases))) =
     (if ix \<le> i \<and> i < ix + length bases then nat (r + 1) else 0)"
proof (induction bases arbitrary: ix)
  case Nil
  then show ?case by simp
next
  case (Cons base rest)
  have here: "length (filter (\<lambda>q. mirror q = i) (map fst (mirrorAttempts r ix base (requestUrl isAbs p path base) 0)))
     = (if i = ix then nat (r + 1) else 0)"
    by (simp add: mirrorAttempts_def filter_map comp_def)
  show ?case
    using Cons.IH[of "Suc ix"] here by auto
qed

lemma schedule_targets:
  "q \<in> set (map fst (schedule r isAbs p path ix bases)) \<Longrightarrow>
   \<exists>j < length bases. mirror q = ix + j \<and> target q = requestUrl isAbs p path (bases ! j)"
proof (induction bases arbitrary: ix)
  case Nil
  then show ?case by simp
next
  case (Cons base rest)
  from Cons.prems consider
    (a) "q \<in> set (map fst (mirrorAttempts r ix base (requestUrl isAbs p path base) 0))"
    | (b) "q \<in> set (map fst (schedule r isAbs p path (Suc ix) rest))"
    by auto
  then show ?case
  proof cases
    case a
    from mirrorAttempts_mirror[OF a] show ?thesis by (intro exI[of _ 0]) simp
  next
    case b
    from Cons.IH[OF b] obtain j where "j < length rest" "mirror q = Suc ix + j"
      "target q = requestUrl isAbs p path (rest ! j)" by blast
    then show ?thesis by (intro exI[of _ "Suc j"]) simp
  qed
qed

lemma schedule_snd:
  "k < length (schedule r isAbs p path ix bases) \<Longrightarrow>
   ix \<le> mirror (fst (schedule r isAbs p path ix bases ! k)) \<and>
   snd (schedule r isAbs p path ix bases ! k) = bases ! (mirror (fst (schedule r isAbs p path ix bases ! k)) - ix)"
proof (induction bases arbitrary: ix k)
  case Nil
  then show ?case by simp
next
  case (Cons base rest)
  let ?here = "mirrorAttempts r ix base (requestUrl isAbs p path base) 0"
  show ?case
  proof (cases "k < length ?here")
    case True
    then have "schedule r isAbs p path ix (base # rest) ! k = ?here ! k"
      by (simp add: nth_append)
    moreover from True have "?here ! k = (\<lparr>mirror = ix, attempt = [0..r] ! k, target = requestUrl isAbs p path base\<rparr>, base)"
      by (simp add: mirrorAttempts_def)
    ultimately show ?thesis by simp
  next
    case False
    then have eq: "schedule r isAbs p path ix (base # rest) ! k
        = schedule r isAbs p path (Suc ix) rest ! (k - length ?here)"
      by (simp add: nth_append)
    from False Cons.prems have "k - length ?here < length (schedule r isAbs p path (Suc ix) rest)"
      by simp
    from Cons.IH[OF this] eq show ?thesis
      by (auto simp: Suc_diff_le)
  qed
qed

lemma fetch_refines:
  assumes ms: "cleanInstances (instances opts) = ms" "ms \<noteq> []"
    and path: "(if isAbsolute p then pathOf p else Some p) = Some path"
    and run: "fetchHtmlWithFallback pathOf net p opts w = (res, w')"
  shows "\<exists>tr. requests w' = requests w @ tr \<and>
           firstPlausible net (length (requests w))
             (schedule (retriesPerInstance opts) (isAbsolute p) p path 0 ms)
           = ((case res of Inr f \<Rightarrow> Some f | Inl e \<Rightarrow> None), tr)"
proof -
  let ?w0 = "w\<lparr>lastError := None\<rparr>"
  obtain r1 w1 where il: "instanceLoop net (retriesPerInstance opts) (isAbsolute p) p path 0 ms ?w0 = (r1, w1)"
    by (cases "instanceLoop net (retriesPerInstance opts) (isAbsolute p) p path 0 ms ?w0")
  from instanceLoop_refines[OF il] obtain tr where tr: "requests w1 = requests w @ tr"
    "firstPlausible net (length (requests w)) (schedule (retriesPerInstance opts) (isAbsolute p) p path 0 ms) = (r1, tr)"
    by auto
  from run ms path il have "w' = w1 \<and> (case res of Inr f \<Rightarrow> Some f | Inl e \<Rightarrow> None) = r1"
    by (cases r1) (auto simp: fetchHtmlWithFallback_def Let_def split: if_splits)
  with tr show ?thesis by auto
qed

lemma prefix_filter_length:
  "prefix xs ys \<Longrightarrow> length (filter P xs) \<le> length (filter P ys)"
  by (auto simp: prefix_def)

lemma second_mirror_wins:
  assumes two: "ms = b0 # b1 # rest" and r: "0 \<le> r"
    and fail: "\<forall>k \<le> nat r. isl (attemptOnce (net (n + k) (requestUrl isAbs p path b0)))"
    and ok: "\<not> isl (attemptOnce (net (n + nat r + 1) (requestUrl isAbs p path b1)))"
    and fp: "firstPlausible net n (schedule r isAbs p path 0 ms) = (res, tr)"
  shows "(\<exists>f. res = Some f \<and> instanceUsed f = b1) \<and> (\<forall>q \<in> set tr. mirror q < 2) \<and> length tr = nat r + 2"
proof -
  let ?u0 = "requestUrl isAbs p path b0" and ?u1 = "requestUrl isAbs p path b1"
  let ?first = "mirrorAttempts r 0 b0 ?u0 0"
  let ?q1 = "\<lparr>mirror = Suc 0, attempt = 0, target = ?u1\<rparr>"
  have len: "length ?first = nat r + 1" using r by (simp add: mirrorAttempts_def)
  have "\<forall>k < length ?first. isl (attemptOnce (net (n + k) (target (fst (?first ! k)))))"
    using fail len by (simp add: mirrorAttempts_def)
  note skip = firstPlausible_skip_failures[OF this]
  from r have up: "[0..r] = 0 # [0 + 1..r]" by (simp add: upto_rec1)
  obtain body final where b: "attemptOnce (net (n + nat r + 1) ?u1) = Inr (body, final)"
    using ok by (cases "attemptOnce (net (n + nat r + 1) ?u1)") auto
  have second: "mirrorAttempts r (Suc 0) b1 ?u1 0 @ schedule r isAbs p path (Suc (Suc 0)) rest
      = (?q1, b1) # (map (\<lambda>a. (\<lparr>mirror = Suc 0, attempt = a, target = ?u1\<rparr>, b1)) [0 + 1..r]
           @ schedule r isAbs p path (Suc (Suc 0)) rest)"
    by (subst mirrorAttempts_def, subst up) simp
  have "firstPlausible net n (schedule r isAbs p path 0 ms)
      = (Some \<lparr>html = body, instanceUsed = b1, finalUrl = final\<rparr>, map fst ?first @ [?q1])"
    unfolding two schedule.simps skip second using b len by (simp add: add.commute add.left_commute)
  with fp have res: "res = Some \<lparr>html = body, instanceUsed = b1, finalUrl = final\<rparr>"
    and tr: "tr = map fst ?first @ [?q1]" by simp_all
  from tr len show ?thesis using res by (auto simp: mirrorAttempts_def)
qed

lemma demoBody_plausible: "attemptOnce (Responded True 200 ''OK'' demoBody u) = Inr (demoBody, u)"
proof -
  have "\<not> sublist ''Verifying your browser'' demoBody"
  proof
    assume "sublist ''Verifying your browser'' demoBody"
    then have "set ''Verifying your browser'' \<subseteq> set demoBody"
      by (rule set_mono_sublist)
    then show False by (simp add: demoBody_def)
  qed
  moreover have "length demoBody = 100" "demoBody \<noteq> []"
    by (simp_all add: demoBody_def)
  ultimately show ?thesis by simp
qed

lemma demoOpts_clean:
  "cleanInstances (instances demoOpts) = [''https://a.example'', ''https://b.example'', ''https://c.example'']"
  by (simp add: demoOpts_def cleanInstances_def trim_def is_space_def strip_trailing_slashes_def)

text \<open>
  Claim C4.  For a call with a non-empty cleaned mirror list, the requests that the fetcher
  sends are a prefix of the schedule (the mirrors in order, attempts \<open>0\<close> to
  \<open>retriesPerInstance\<close> on each), so no mirror is tried more than
  \<open>retriesPerInstance + 1\<close> times; every request but the last one failed, and a
  successful call returns the document of its last request with that request's mirror as
  \<open>instanceUsed\<close>.  In particular, when the first mirror fails all its attempts and the
  second mirror succeeds on its first attempt, the result names the second mirror and no
  request goes to a third.
\<close>

theorem fetch_first_plausible_mirror_wins:
  assumes ms: "cleanInstances (instances opts) = ms" "ms \<noteq> []"
    and path: "(if isAbsolute p then pathOf p else Some p) = Some path"
    and run: "fetchHtmlWithFallback pathOf net p opts w = (res, w')"
  shows "\<exists>tr. requests w' = requests w @ tr
    \<and> firstPlausible net (length (requests w))
          (schedule (retriesPerInstance opts) (isAbsolute p) p path 0 ms)
        = ((case res of Inr f \<Rightarrow> Some f | Inl e \<Rightarrow> None), tr)
    \<and> prefix tr (map fst (schedule (retriesPerInstance opts) (isAbsolute p) p path 0 ms))
    \<and> (\<forall>i. length (filter (\<lambda>q. mirror q = i) tr) \<le> nat (retriesPerInstance opts + 1))
    \<and> (\<forall>k. Suc k < length tr \<longrightarrow>
           isl (attemptOnce (net (length (requests w) + k) (target (tr ! k)))))
    \<and> (\<forall>f. res = Inr f \<longrightarrow>
           tr \<noteq> [] \<and> instanceUsed f = ms ! mirror (last tr) \<and>
           attemptOnce (net (length (requests w) + length tr - 1) (target (last tr)))
             = Inr (html f, finalUrl f))
    \<and> (\<forall>b0 b1 rest.
           ms = b0 # b1 # rest \<and> 0 \<le> retriesPerInstance opts \<and>
           (\<forall>k \<le> nat (retriesPerInstance opts).
              isl (attemptOnce (net (length (requests w) + k) (requestUrl (isAbsolute p) p path b0)))) \<and>
           \<not> isl (attemptOnce (net (length (requests w) + nat (retriesPerInstance opts) + 1)
                                (requestUrl (isAbsolute p) p path b1)))
           \<longrightarrow> (\<exists>f. res = Inr f \<and> instanceUsed f = b1) \<and> (\<forall>q \<in> set tr. mirror q < 2) \<and>
               length tr = nat (retriesPerInstance opts) + 2)"
proof -
  let ?r = "retriesPerInstance opts" and ?n = "length (requests w)"
  let ?sched = "schedule ?r (isAbsolute p) p path 0 ms"
  let ?res = "case res of Inr f \<Rightarrow> Some f | Inl e \<Rightarrow> None"
  from fetch_refines[OF ms path run] obtain tr where tr: "requests w' = requests w @ tr"
    and fp: "firstPlausible net ?n ?sched = (?res, tr)"
    by blast
  have pre: "prefix tr (map fst ?sched)"
    by (rule firstPlausible_prefix[OF fp])
  have cnt: "\<forall>i. length (filter (\<lambda>q. mirror q = i) tr) \<le> nat (?r + 1)"
  proof
    fix i
    have "length (filter (\<lambda>q. mirror q = i) tr) \<le> length (filter (\<lambda>q. mirror q = i) (map fst ?sched))"
      by (rule prefix_filter_length[OF pre])
    also have "\<dots> \<le> nat (?r + 1)"
      unfolding schedule_mirror_count by simp
    finally show "length (filter (\<lambda>q. mirror q = i) tr) \<le> nat (?r + 1)" .
  qed
  have early: "\<forall>k. Suc k < length tr \<longrightarrow> isl (attemptOnce (net (?n + k) (target (tr ! k))))"
    using firstPlausible_earlier_fail[OF fp] by blast
  have succ: "\<forall>f. res = Inr f \<longrightarrow>
           tr \<noteq> [] \<and> instanceUsed f = ms ! mirror (last tr) \<and>
           attemptOnce (net (?n + length tr - 1) (target (last tr))) = Inr (html f, finalUrl f)"
  proof (intro allI impI)
    fix f assume "res = Inr f"
    with fp have fp': "firstPlausible net ?n ?sched = (Some f, tr)" by simp
    from firstPlausible_Some[OF fp'] have ne: "tr \<noteq> []" and le: "length tr \<le> length ?sched"
      and used: "instanceUsed f = snd (?sched ! (length tr - 1))"
      and ok: "attemptOnce (net (?n + length tr - 1) (target (last tr))) = Inr (html f, finalUrl f)"
      by simp_all
    from ne le have k: "length tr - 1 < length ?sched" by (cases tr) auto
    from pre obtain zs where zs: "map fst ?sched = tr @ zs" by (auto simp: prefix_def)
    from ne have "last tr = (tr @ zs) ! (length tr - 1)"
      by (simp add: nth_append last_conv_nth)
    with zs k have lastq: "last tr = fst (?sched ! (length tr - 1))"
      by (metis nth_map)
    from schedule_snd[OF k] used lastq have "instanceUsed f = ms ! mirror (last tr)"
      by simp
    with ne ok show "tr \<noteq> [] \<and> instanceUsed f = ms ! mirror (last tr) \<and>
           attemptOnce (net (?n + length tr - 1) (target (last tr))) = Inr (html f, finalUrl f)"
      by simp
  qed
  have part: "\<forall>b0 b1 rest.
           ms = b0 # b1 # rest \<and> 0 \<le> ?r \<and>
           (\<forall>k \<le> nat ?r. isl (attemptOnce (net (?n + k) (requestUrl (isAbsolute p) p path b0)))) \<and>
           \<not> isl (attemptOnce (net (?n + nat ?r + 1) (requestUrl (isAbsolute p) p path b1)))
           \<longrightarrow> (\<exists>f. res = Inr f \<and> instanceUsed f = b1) \<and> (\<forall>q \<in> set tr. mirror q < 2) \<and>
               length tr = nat ?r + 2"
  proof (intro allI impI, elim conjE)
    fix b0 b1 rest
    assume a: "ms = b0 # b1 # rest" "0 \<le> ?r"
      "\<forall>k \<le> nat ?r. isl (attemptOnce (net (?n + k) (requestUrl (isAbsolute p) p path b0)))"
      "\<not> isl (attemptOnce (net (?n + nat ?r + 1) (requestUrl (isAbsolute p) p path b1)))"
    from second_mirror_wins[OF a fp]
    show "(\<exists>f. res = Inr f \<and> instanceUsed f = b1) \<and> (\<forall>q \<in> set tr. mirror q < 2) \<and>
               length tr = nat ?r + 2"
      by (cases res) auto
  qed
  from tr fp pre cnt early succ part show ?thesis by blast
qed

theorem fetch_first_plausible_mirror_wins_witness:
  "\<exists>f tr. fst (fetchHtmlWithFallback (\<lambda>u. None) demoNet ''/search?f=tweets&q=x'' demoOpts wire0) = Inr f
     \<and> instanceUsed f = ''https://b.example''
     \<and> requests (snd (fetchHtmlWithFallback (\<lambda>u. None) demoNet ''/search?f=tweets&q=x'' demoOpts wire0)) = tr
     \<and> length tr = 3 \<and> (\<forall>q \<in> set tr. mirror q < 2)"
proof -
  let ?p = "''/search?f=tweets&q=x''"
  obtain res w' where run: "fetchHtmlWithFallback (\<lambda>u. None) demoNet ?p demoOpts wire0 = (res, w')"
    by (cases "fetchHtmlWithFallback (\<lambda>u. None) demoNet ?p demoOpts wire0")
  have rel: "\<not> isAbsolute ?p" by (simp add: isAbsolute_def lower_char_def)
  then have path: "(if isAbsolute ?p then (\<lambda>u. None) ?p else Some ?p) = Some ?p" by simp
  have ne: "[''https://a.example'', ''https://b.example'', ''https://c.example''] \<noteq> []" by simp
  from fetch_first_plausible_mirror_wins[OF demoOpts_clean ne path run]
  obtain tr where tr: "requests w' = requests wire0 @ tr"
    and part: "\<forall>b0 b1 rest.
           [''https://a.example'', ''https://b.example'', ''https://c.example''] = b0 # b1 # rest \<and>
           0 \<le> retriesPerInstance demoOpts \<and>
           (\<forall>k \<le> nat (retriesPerInstance demoOpts).
              isl (attemptOnce (demoNet (length (requests wire0) + k) (requestUrl (isAbsolute ?p) ?p ?p b0)))) \<and>
           \<not> isl (attemptOnce (demoNet (length (requests wire0) + nat (retriesPerInstance demoOpts) + 1)
                                (requestUrl (isAbsolute ?p) ?p ?p b1)))
           \<longrightarrow> (\<exists>f. res = Inr f \<and> instanceUsed f = b1) \<and> (\<forall>q \<in> set tr. mirror q < 2) \<and>
               length tr = nat (retriesPerInstance demoOpts) + 2"
    by blast
  have "(\<forall>k \<le> nat (retriesPerInstance demoOpts).
              isl (attemptOnce (demoNet (length (requests wire0) + k) (requestUrl (isAbsolute ?p) ?p ?p ''https://a.example''))))"
    by (simp add: demoOpts_def wire0_def demoNet_def)
  moreover have "\<not> isl (attemptOnce (demoNet (length (requests wire0) + nat (retriesPerInstance demoOpts) + 1)
                                (requestUrl (isAbsolute ?p) ?p ?p ''https://b.example'')))"
    by (simp add: demoOpts_def wire0_def demoNet_def demoBody_plausible del: attemptOnce.simps)
  moreover have "0 \<le> retriesPerInstance demoOpts" by (simp add: demoOpts_def)
  ultimately have "(\<exists>f. res = Inr f \<and> instanceUsed f = ''https://b.example'') \<and> (\<forall>q \<in> set tr. mirror q < 2) \<and>
               length tr = nat (retriesPerInstance demoOpts) + 2"
    using part by blast
  with tr run show ?thesis by (auto simp: wire0_def demoOpts_def)
qed

lemma twoMirrors_clean:
  "cleanInstances (instances twoMirrors) = [''https://a.example'', ''https://b.example'']"
  by (simp add: twoMirrors_def cleanInstances_def trim_def is_space_def strip_trailing_slashes_def)

text \<open>
  Claim C10.  When the input of the fetcher is an absolute URL, every request of the call,
  on every mirror, goes to that very URL: the mirror base addresses are not used to build
  it.  No mirror is tried more than \<open>retriesPerInstance + 1\<close> times, and when the call
  fails although the URL parses, each configured mirror has been tried exactly that often.
\<close>

theorem absolute_url_requested_on_every_mirror:
  assumes abs: "isAbsolute p"
    and run: "fetchHtmlWithFallback pathOf net p opts w = (res, w')"
  shows "\<exists>tr. requests w' = requests w @ tr
    \<and> (\<forall>q \<in> set tr. target q = p)
    \<and> (\<forall>i. length (filter (\<lambda>q. mirror q = i) tr) \<le> nat (retriesPerInstance opts + 1))
    \<and> (pathOf p \<noteq> None \<and> isl res \<longrightarrow>
         (\<forall>i < length (cleanInstances (instances opts)).
            length (filter (\<lambda>q. mirror q = i) tr) = nat (retriesPerInstance opts + 1)))"
proof (cases "cleanInstances (instances opts) = [] \<or> pathOf p = None")
  case True
  with run abs have "requests w' = requests w @ []"
    by (auto simp: fetchHtmlWithFallback_def Let_def split: if_splits)
  moreover from True run abs have "pathOf p \<noteq> None \<and> isl res \<longrightarrow> cleanInstances (instances opts) = []"
    by auto
  ultimately show ?thesis
    by (intro exI[of _ "[]"]) auto
next
  case False
  then obtain path where path: "pathOf p = Some path" and ne: "cleanInstances (instances opts) \<noteq> []"
    by auto
  let ?ms = "cleanInstances (instances opts)" and ?r = "retriesPerInstance opts"
  let ?sched = "schedule ?r (isAbsolute p) p path 0 ?ms"
  from abs path have p': "(if isAbsolute p then pathOf p else Some p) = Some path" by simp
  from fetch_refines[OF refl ne p' run] obtain tr where tr: "requests w' = requests w @ tr"
    and fp: "firstPlausible net (length (requests w)) ?sched = ((case res of Inr f \<Rightarrow> Some f | Inl e \<Rightarrow> None), tr)"
    by blast
  have pre: "prefix tr (map fst ?sched)" by (rule firstPlausible_prefix[OF fp])
  have tgt: "\<forall>q \<in> set tr. target q = p"
  proof
    fix q assume "q \<in> set tr"
    with pre have "q \<in> set (map fst ?sched)" using set_mono_prefix by blast
    from schedule_targets[OF this] abs show "target q = p" by (auto simp: requestUrl_def)
  qed
  have cnt: "\<forall>i. length (filter (\<lambda>q. mirror q = i) tr) \<le> nat (?r + 1)"
  proof
    fix i
    have "length (filter (\<lambda>q. mirror q = i) tr) \<le> length (filter (\<lambda>q. mirror q = i) (map fst ?sched))"
      by (rule prefix_filter_length[OF pre])
    also have "\<dots> \<le> nat (?r + 1)"
      unfolding schedule_mirror_count by simp
    finally show "length (filter (\<lambda>q. mirror q = i) tr) \<le> nat (?r + 1)" .
  qed
  have all: "pathOf p \<noteq> None \<and> isl res \<longrightarrow>
         (\<forall>i < length ?ms. length (filter (\<lambda>q. mirror q = i) tr) = nat (?r + 1))"
  proof (intro impI allI, elim conjE)
    fix i assume "isl res" "i < length ?ms"
    with fp have "firstPlausible net (length (requests w)) ?sched = (None, tr)"
      by (cases res) auto
    from firstPlausible_None[OF this] have "tr = map fst ?sched" by simp
    with \<open>i < length ?ms\<close> show "length (filter (\<lambda>q. mirror q = i) tr) = nat (?r + 1)"
      by (simp only: schedule_mirror_count) simp
  qed
  from tr tgt cnt all show ?thesis by blast
qed

theorem absolute_url_requested_on_every_mirror_witness:
  "isAbsolute ''https://nitter.example/search?q=x''
   \<and> (\<exists>tr. requests (snd (fetchHtmlWithFallback (\<lambda>u. Some ''/search?q=x'') deadNet
                ''https://nitter.example/search?q=x'' twoMirrors wire0)) = tr
        \<and> (\<forall>q \<in> set tr. target q = ''https://nitter.example/search?q=x'')
        \<and> length (filter (\<lambda>q. mirror q = 0) tr) = 2
        \<and> length (filter (\<lambda>q. mirror q = 1) tr) = 2)"
proof -
  let ?p = "''https://nitter.example/search?q=x''"
  let ?run = "fetchHtmlWithFallback (\<lambda>u. Some ''/search?q=x'') deadNet ?p twoMirrors wire0"
  have abs: "isAbsolute ?p" by (simp add: isAbsolute_def lower_char_def)
  obtain res w' where run: "?run = (res, w')" by (cases ?run)
  have failed: "isl res"
  proof (cases res)
    case (Inr f)
    from fetch_refines[OF twoMirrors_clean _ _ run, of "''/search?q=x''"] abs Inr
    obtain tr where "firstPlausible deadNet (length (requests wire0))
        (schedule (retriesPerInstance twoMirrors) (isAbsolute ?p) ?p ''/search?q=x'' 0
           [''https://a.example'', ''https://b.example'']) = (Some f, tr)"
      by auto
    from firstPlausible_Some[OF this] show ?thesis by (simp add: deadNet_def)
  qed simp
  from absolute_url_requested_on_every_mirror[OF abs run]
  obtain tr where tr: "requests w' = requests wire0 @ tr" "\<forall>q \<in> set tr. target q = ?p"
    and all: "(\<lambda>u. Some ''/search?q=x'') ?p \<noteq> None \<and> isl res \<longrightarrow>
         (\<forall>i < length (cleanInstances (instances twoMirrors)).
            length (filter (\<lambda>q. mirror q = i) tr) = nat (retriesPerInstance twoMirrors + 1))"
    by blast
  from all failed have "\<forall>i < 2. length (filter (\<lambda>q. mirror q = i) tr) = 2"
    by (simp add: twoMirrors_clean) (simp add: twoMirrors_def)
  then have "length (filter (\<lambda>q. mirror q = 0) tr) = 2" "length (filter (\<lambda>q. mirror q = 1) tr) = 2"
    by simp_all
  with tr run abs show ?thesis by (simp add: wire0_def)
qed

section \<open>Properties of the Search Aggregator\<close>

lemma appendPage_distinct:
  "distinct (map tweetId acc) \<Longrightarrow> distinct (map tweetId (appendPage limit acc ts))"
proof (induction limit acc ts rule: appendPage.induct)
  case (1 limit acc)
  then show ?case by simp
next
  case (2 limit acc t ts)
  show ?case
  proof (cases "int (length acc) \<ge> limit")
    case True
    with "2.prems" show ?thesis by simp
  next
    case False
    show ?thesis
    proof (cases "\<exists>r \<in> set acc. tweetId r = tweetId t")
      case True
      with False "2.IH"(1) "2.prems" show ?thesis by simp
    next
      case fresh: False
      with "2.prems" have "distinct (map tweetId (acc @ [t]))" by force
      with False fresh "2.IH"(2) show ?thesis by simp
    qed
  qed
qed

lemma appendPage_prefix: "prefix acc (appendPage limit acc ts)"
proof (induction limit acc ts rule: appendPage.induct)
  case (1 limit acc)
  then show ?case by simp
next
  case (2 limit acc t ts)
  then show ?case by (auto dest: append_prefixD)
qed

lemma appendPage_length:
  "int (length acc) \<le> limit \<Longrightarrow> int (length (appendPage limit acc ts)) \<le> limit"
  by (induction limit acc ts rule: appendPage.induct) auto

lemma pageLoop_invariants:
  "pageLoop pf net limit opts s = (t, s') \<Longrightarrow>
   prefix (collected s) (collected s') \<and>
   (distinct (map tweetId (collected s)) \<longrightarrow> distinct (map tweetId (collected s'))) \<and>
   page s' \<le> max 10 (page s) \<and> page s \<le> page s' \<and>
   length (fetchedPaths s') \<le> length (fetchedPaths s) + (10 - page s) \<and>
   (t = None \<longrightarrow> length (fetchedPaths s') = length (fetchedPaths s) + (page s' - page s)) \<and>
   (t = None \<longrightarrow> \<not> (page s' < 10 \<and> nextPath s' \<noteq> None \<and> nextPath s' \<noteq> Some [] \<and> int (length (collected s')) < limit))"
proof (induction pf net limit opts s arbitrary: t s' rule: pageLoop.induct)
  case (1 pf net limit opts s)
  show ?case
  proof (cases "nextPath s")
    case None
    with "1.prems" show ?thesis by (simp add: pageLoop.simps[of pf net limit opts s])
  next
    case (Some path)
    show ?thesis
    proof (cases "page s < 10 \<and> path \<noteq> [] \<and> int (length (collected s)) < limit")
      case False
      with Some "1.prems" show ?thesis by (auto simp add: pageLoop.simps[of pf net limit opts s])
    next
      case True
      obtain r w' where f: "fetchHtmlWithFallback (urlPath pf) net path opts (onWire s) = (r, w')"
        by (cases "fetchHtmlWithFallback (urlPath pf) net path opts (onWire s)")
      show ?thesis
      proof (cases r)
        case (Inl err)
        with True Some f "1.prems" show ?thesis
          by (auto simp add: pageLoop.simps[of pf net limit opts s])
      next
        case (Inr got)
        let ?s1 = "s\<lparr>fetchedPaths := fetchedPaths s @ [path], onWire := w',
                             instanceUsedForLastFetch := instanceUsed got,
                             collected := appendPage limit (collected s)
                                (extractTweetsFromHtml pf (html got) (instanceUsed got))\<rparr>"
        have s1: "prefix (collected s) (collected ?s1)"
          "distinct (map tweetId (collected s)) \<longrightarrow> distinct (map tweetId (collected ?s1))"
          "length (fetchedPaths ?s1) = Suc (length (fetchedPaths s))" "page ?s1 = page s"
          by (simp_all add: appendPage_prefix appendPage_distinct)
        show ?thesis
        proof (cases "int (length (collected ?s1)) < limit")
          case lt: True
          show ?thesis
          proof (cases "extractShowMorePath pf (html got)")
            case (Inl err)
            with lt True Some f Inr "1.prems" have "t = Some err" "s' = ?s1"
              by (simp_all add: pageLoop.simps[of pf net limit opts s] Let_def)
            with s1 True show ?thesis by auto
          next
            case (Inr np)
            let ?s2 = "?s1\<lparr>nextPath := np, page := Suc (page s)\<rparr>"
            from lt True Some f \<open>r = Inr got\<close> Inr "1.prems"
            have run: "pageLoop pf net limit opts ?s2 = (t, s')"
              by (simp add: pageLoop.simps[of pf net limit opts s] Let_def)
            from "1.IH"(1)[OF Some True f[symmetric] \<open>r = Inr got\<close> refl lt Inr run] s1 True
            show ?thesis
              by (auto intro: prefix_order.trans)
          qed
        next
          case ge: False
          let ?s2 = "?s1\<lparr>nextPath := None, page := Suc (page s)\<rparr>"
          from ge True Some f Inr "1.prems"
          have run: "pageLoop pf net limit opts ?s2 = (t, s')"
            by (simp add: pageLoop.simps[of pf net limit opts s] Let_def)
          from "1.IH"(2)[OF Some True f[symmetric] Inr refl ge run] s1 True
          show ?thesis
            by (auto intro: prefix_order.trans)
        qed
      qed
    qed
  qed
qed

lemma fetch_succeeds:
  assumes ne: "cleanInstances (instances opts) \<noteq> []" and r: "0 \<le> retriesPerInstance opts"
    and path: "isAbsolute p \<longrightarrow> pathOf p \<noteq> None"
    and ok: "\<forall>n u. \<not> isl (attemptOnce (net n u))"
  shows "\<exists>got w'. fetchHtmlWithFallback pathOf net p opts w = (Inr got, w')"
proof -
  obtain res w' where run: "fetchHtmlWithFallback pathOf net p opts w = (res, w')"
    by (cases "fetchHtmlWithFallback pathOf net p opts w")
  from path obtain pth where pth: "(if isAbsolute p then pathOf p else Some p) = Some pth"
    by (cases "isAbsolute p") auto
  obtain b rest where ms: "cleanInstances (instances opts) = b # rest"
    using ne by (cases "cleanInstances (instances opts)") auto
  from r have up: "[0..retriesPerInstance opts] = 0 # [0 + 1..retriesPerInstance opts]"
    by (simp add: upto_rec1)
  from fetch_refines[OF ms _ pth run] obtain tr where
    fp: "firstPlausible net (length (requests w))
           (schedule (retriesPerInstance opts) (isAbsolute p) p pth 0 (b # rest))
         = ((case res of Inr f \<Rightarrow> Some f | Inl e \<Rightarrow> None), tr)"
    by auto
  from ok have "\<not> isl (attemptOnce (net (length (requests w)) (requestUrl (isAbsolute p) p pth b)))"
    by blast
  then obtain doc fin where
    "attemptOnce (net (length (requests w)) (requestUrl (isAbsolute p) p pth b)) = Inr (doc, fin)"
    by (cases "attemptOnce (net (length (requests w)) (requestUrl (isAbsolute p) p pth b))") auto
  then have "fst (firstPlausible net (length (requests w))
           (schedule (retriesPerInstance opts) (isAbsolute p) p pth 0 (b # rest))) \<noteq> None"
    by (simp add: mirrorAttempts_def up)
  with fp have "\<not> isl res" by (cases res) auto
  with run show ?thesis by (cases res) auto
qed

lemma pageLoop_cyclic:
  "cleanInstances (instances opts) \<noteq> [] \<Longrightarrow> 0 \<le> retriesPerInstance opts \<Longrightarrow>
   isAbsolute p \<longrightarrow> urlPath pf p \<noteq> None \<Longrightarrow> \<forall>n u. \<not> isl (attemptOnce (net n u)) \<Longrightarrow>
   \<forall>doc. extractShowMorePath pf doc = Inr (Some p) \<Longrightarrow> p \<noteq> [] \<Longrightarrow>
   pageLoop pf net limit opts s = (t, s') \<Longrightarrow> nextPath s = Some pth \<Longrightarrow> pth \<noteq> [] \<Longrightarrow>
   page s \<le> 10 \<Longrightarrow> isAbsolute pth \<longrightarrow> urlPath pf pth \<noteq> None \<Longrightarrow>
   t = None \<and> (page s' = 10 \<or> limit \<le> int (length (collected s')))"
proof (induction pf net limit opts s arbitrary: t s' pth rule: pageLoop.induct)
  case (1 pf net limit opts s)
  note ne = "1.prems"(1) and r = "1.prems"(2) and path = "1.prems"(3) and ok = "1.prems"(4)
    and more = "1.prems"(5) and p = "1.prems"(6) and run0 = "1.prems"(7) and np = "1.prems"(8)
    and pth = "1.prems"(9) and pg = "1.prems"(10) and pabs = "1.prems"(11)
  show ?case
  proof (cases "page s < 10 \<and> pth \<noteq> [] \<and> int (length (collected s)) < limit")
    case False
    with run0 np pth pg show ?thesis by (auto simp add: pageLoop.simps[of pf net limit opts s])
  next
    case True
    from fetch_succeeds[where pathOf = "urlPath pf" and p = pth and w = "onWire s", OF ne r pabs ok]
    obtain got w' where f: "fetchHtmlWithFallback (urlPath pf) net pth opts (onWire s) = (Inr got, w')"
      by auto
    let ?s1 = "s\<lparr>fetchedPaths := fetchedPaths s @ [pth], onWire := w',
                             instanceUsedForLastFetch := instanceUsed got,
                             collected := appendPage limit (collected s)
                                (extractTweetsFromHtml pf (html got) (instanceUsed got))\<rparr>"
    show ?thesis
    proof (cases "int (length (collected ?s1)) < limit")
      case lt: True
      let ?s2 = "?s1\<lparr>nextPath := Some p, page := Suc (page s)\<rparr>"
      from more have sm: "extractShowMorePath pf (html got) = Inr (Some p)" by blast
      from lt True f sm run0 np
      have run: "pageLoop pf net limit opts ?s2 = (t, s')"
        by (simp add: pageLoop.simps[of pf net limit opts s] Let_def)
      have "nextPath ?s2 = Some p" "page ?s2 \<le> 10" using True by simp_all
      from "1.IH"(1)[OF np True f[symmetric] refl refl lt sm ne r path ok more p run this(1) p this(2) path]
      show ?thesis .
    next
      case ge: False
      let ?s2 = "?s1\<lparr>nextPath := None, page := Suc (page s)\<rparr>"
      from ge True f run0 np
      have run: "pageLoop pf net limit opts ?s2 = (t, s')"
        by (simp add: pageLoop.simps[of pf net limit opts s] Let_def)
      then have "t = None" "s' = ?s2" by (simp_all add: pageLoop.simps[of pf net limit opts ?s2])
      with ge show ?thesis by simp
    qed
  qed
qed

lemma replicate_plausible:
  assumes "c \<notin> set ''Verifying your browser''"
  shows "attemptOnce (Responded True st txt (replicate 100 c) u) = Inr (replicate 100 c, u)"
proof -
  have "\<not> sublist ''Verifying your browser'' (replicate 100 c)"
  proof
    assume "sublist ''Verifying your browser'' (replicate 100 c)"
    then have "set ''Verifying your browser'' \<subseteq> set (replicate 100 c)"
      by (rule set_mono_sublist)
    then have "CHR ''V'' \<in> set (replicate 100 c)" by auto
    then have "c = CHR ''V''" by simp
    with assms show False by simp
  qed
  moreover have "length (replicate 100 c) = 100" "replicate 100 c \<noteq> []"
    by simp_all
  ultimately show ?thesis by simp
qed

lemma pageA_plausible: "attemptOnce (Responded True 200 ''OK'' pageA u) = Inr (pageA, u)"
  unfolding pageA_def by (rule replicate_plausible) simp

lemma pageB_plausible: "attemptOnce (Responded True 200 ''OK'' pageB u) = Inr (pageB, u)"
  unfolding pageB_def by (rule replicate_plausible) simp

lemma pageB_not_pageA: "pageB \<noteq> pageA"
  by (simp add: pageA_def pageB_def)

lemmas run_fetch = fetchHtmlWithFallback_def cleanInstances_def trim_def is_space_def
  strip_trailing_slashes_def isAbsolute_def lower_char_def attemptLoop.simps Let_def
  twoMirrors_def wire0_def lastErrorMessage_def

lemmas run_search = searchLoop_def firstPath_def pageLoop.simps
  extractTweetsFromHtml_def extractTweet_def extractShowMorePath_def List.map_filter_def
  lastSegment_def nonEmpty_def parseCount_def remove_commas_def mkItem_def

lemma twoPage_ids:
  "map tweetId (results (fst (searchNitterGlobal twoPagePlatform twoPageNet 0 ''foo'' 3 twoMirrors wire0)))
     = [''1'', ''2'', ''3'']"
  by (simp add: searchNitterGlobal_def run_search run_fetch twoPagePlatform_def twoPageNet_def
        pageA_plausible pageB_plausible pageB_not_pageA del: attemptOnce.simps(2))

lemma dying_run:
  "fst (searchLoop twoPagePlatform dyingNet ''foo'' 3 twoMirrors wire0)
     = Some (Error ''All Nitter instances failed. Last error: fetch failed'')
   \<and> map tweetId (collected (snd (searchLoop twoPagePlatform dyingNet ''foo'' 3 twoMirrors wire0))) = [''1'', ''2'']"
  by (simp add: run_search run_fetch twoPagePlatform_def dyingNet_def
        pageA_plausible pageB_plausible pageB_not_pageA del: attemptOnce.simps(2))

lemma searchNitterGlobal_results:
  "results (fst (searchNitterGlobal pf net now q limit opts w)) = collected (snd (searchLoop pf net q limit opts w))"
  by (simp add: searchNitterGlobal_def split: prod.splits option.splits)

lemma searchLoop_distinct:
  "distinct (map tweetId (collected (snd (searchLoop pf net q limit opts w))))"
proof -
  obtain t s where run: "searchLoop pf net q limit opts w = (t, s)"
    by (cases "searchLoop pf net q limit opts w")
  from pageLoop_invariants[OF run[unfolded searchLoop_def]] run show ?thesis by simp
qed

lemma distinct_count_list: "distinct xs \<Longrightarrow> x \<in> set xs \<Longrightarrow> count_list xs x = 1"
  by (induction xs) auto

lemma appendPage_count:
  "count_list (map tweetId (appendPage limit acc ts)) i \<le> max 1 (count_list (map tweetId acc) i)"
proof (induction limit acc ts rule: appendPage.induct)
  case (1 limit acc)
  then show ?case by simp
next
  case (2 limit acc t ts)
  show ?case
  proof (cases "int (length acc) \<ge> limit")
    case True
    then show ?thesis by simp
  next
    case False
    show ?thesis
    proof (cases "\<exists>r \<in> set acc. tweetId r = tweetId t")
      case True
      with False "2.IH"(1) show ?thesis by simp
    next
      case fresh: False
      then have "tweetId t \<notin> set (map tweetId acc)" by force
      then have "count_list (map tweetId acc) (tweetId t) = 0"
        by (rule count_notin)
      then have "count_list (map tweetId (acc @ [t])) i \<le> max 1 (count_list (map tweetId acc) i)"
        by (cases "i = tweetId t") auto
      with False fresh "2.IH"(2) show ?thesis by auto
    qed
  qed
qed

text \<open>
  Claim C6.  The result sequence of a search run never holds two records with the same
  identifier: every identifier that occurs in it occurs exactly once.  The loop that
  appends a page keeps an accumulator free of duplicates so, and never raises the number
  of occurrences of an identifier that the accumulator already holds.
\<close>

theorem search_results_distinct_identifiers:
  "distinct (map tweetId (results (fst (searchNitterGlobal pf net now q limit opts w))))
   \<and> (\<forall>i \<in> set (map tweetId (results (fst (searchNitterGlobal pf net now q limit opts w)))).
         count_list (map tweetId (results (fst (searchNitterGlobal pf net now q limit opts w)))) i = 1)
   \<and> (\<forall>acc ts. distinct (map tweetId acc) \<longrightarrow> distinct (map tweetId (appendPage limit acc ts)))
   \<and> (\<forall>acc ts i. count_list (map tweetId (appendPage limit acc ts)) i
                     \<le> max 1 (count_list (map tweetId acc) i))"
proof -
  let ?ids = "map tweetId (results (fst (searchNitterGlobal pf net now q limit opts w)))"
  have d: "distinct ?ids"
    by (simp only: searchNitterGlobal_results searchLoop_distinct)
  then have "\<forall>i \<in> set ?ids. count_list ?ids i = 1"
    by (simp add: distinct_count_list)
  with d show ?thesis
    using appendPage_distinct appendPage_count by blast
qed

theorem search_results_distinct_identifiers_witness:
  "map tweetId (results (fst (searchNitterGlobal twoPagePlatform twoPageNet 0 ''foo'' 3 twoMirrors wire0)))
     = [''1'', ''2'', ''3'']
   \<and> count_list (map tweetId (results (fst (searchNitterGlobal twoPagePlatform twoPageNet 0 ''foo'' 3 twoMirrors wire0)))) ''2'' = 1"
proof -
  let ?ids = "map tweetId (results (fst (searchNitterGlobal twoPagePlatform twoPageNet 0 ''foo'' 3 twoMirrors wire0)))"
  from search_results_distinct_identifiers[of twoPagePlatform twoPageNet 0 "''foo''" 3 twoMirrors wire0]
  have "\<forall>i \<in> set ?ids. count_list ?ids i = 1" by blast
  moreover have "''2'' \<in> set ?ids" by (simp only: twoPage_ids) simp
  ultimately have "count_list ?ids ''2'' = 1" by blast
  with twoPage_ids show ?thesis by simp
qed

lemma searchNitterGlobal_error_None:
  "fst (searchLoop pf net q limit opts w) = None \<Longrightarrow>
   error (fst (searchNitterGlobal pf net now q limit opts w)) = None"
  by (cases "searchLoop pf net q limit opts w") (auto simp: searchNitterGlobal_def)

text \<open>
  Claim C7.  The page loop of a search run ends, for every source and every network: it is
  a total function, and a run calls the fetcher at most ten times.  A run that ends
  without an exception has fetched as many pages as it counted and has stopped because
  ten pages were fetched, because no continuation was returned, or because the limit was
  reached; its response carries no error and holds what was accumulated.  In particular,
  on a source that always answers and whose continuation always points to the same page,
  the run ends without an exception after ten pages unless the limit is reached before.
\<close>

theorem search_stops_within_ten_pages:
  "length (fetchedPaths (snd (searchLoop pf net q limit opts w))) \<le> 10
   \<and> (fst (searchLoop pf net q limit opts w) = None \<longrightarrow>
        error (fst (searchNitterGlobal pf net now q limit opts w)) = None
        \<and> results (fst (searchNitterGlobal pf net now q limit opts w))
            = collected (snd (searchLoop pf net q limit opts w))
        \<and> length (fetchedPaths (snd (searchLoop pf net q limit opts w)))
            = page (snd (searchLoop pf net q limit opts w))
        \<and> (page (snd (searchLoop pf net q limit opts w)) = 10
           \<or> nextPath (snd (searchLoop pf net q limit opts w)) = None
           \<or> nextPath (snd (searchLoop pf net q limit opts w)) = Some []
           \<or> limit \<le> int (length (collected (snd (searchLoop pf net q limit opts w))))))
   \<and> (cleanInstances (instances opts) \<noteq> [] \<and> 0 \<le> retriesPerInstance opts
        \<and> (isAbsolute p \<longrightarrow> urlPath pf p \<noteq> None) \<and> (\<forall>n u. \<not> isl (attemptOnce (net n u)))
        \<and> (\<forall>doc. extractShowMorePath pf doc = Inr (Some p)) \<and> p \<noteq> [] \<longrightarrow>
        fst (searchLoop pf net q limit opts w) = None
        \<and> (length (fetchedPaths (snd (searchLoop pf net q limit opts w))) = 10
           \<or> limit \<le> int (length (collected (snd (searchLoop pf net q limit opts w))))))"
proof -
  let ?s0 = "\<lparr>collected = [], instanceUsedForLastFetch = [], nextPath = Some (firstPath pf q),
        page = 0, fetchedPaths = [], onWire = w\<rparr>"
  obtain t s where run: "pageLoop pf net limit opts ?s0 = (t, s)"
    by (cases "pageLoop pf net limit opts ?s0")
  then have sl: "searchLoop pf net q limit opts w = (t, s)"
    by (simp add: searchLoop_def)
  from pageLoop_invariants[OF run]
  have bound: "length (fetchedPaths s) \<le> 10"
    and pg: "page s \<le> 10"
    and cnt: "t = None \<longrightarrow> length (fetchedPaths s) = page s"
    and exit: "t = None \<longrightarrow> \<not> (page s < 10 \<and> nextPath s \<noteq> None \<and> nextPath s \<noteq> Some [] \<and> int (length (collected s)) < limit)"
    by simp_all
  have a: "t = None \<longrightarrow>
        error (fst (searchNitterGlobal pf net now q limit opts w)) = None
        \<and> results (fst (searchNitterGlobal pf net now q limit opts w)) = collected s
        \<and> length (fetchedPaths s) = page s
        \<and> (page s = 10 \<or> nextPath s = None \<or> nextPath s = Some [] \<or> limit \<le> int (length (collected s)))"
  proof
    assume none: "t = None"
    with sl have "error (fst (searchNitterGlobal pf net now q limit opts w)) = None"
      by (simp add: searchNitterGlobal_error_None)
    moreover have "results (fst (searchNitterGlobal pf net now q limit opts w)) = collected s"
      using sl by (simp add: searchNitterGlobal_results)
    moreover from none exit pg
    have "page s = 10 \<or> nextPath s = None \<or> nextPath s = Some [] \<or> limit \<le> int (length (collected s))"
      by (cases "page s = 10") auto
    ultimately show "error (fst (searchNitterGlobal pf net now q limit opts w)) = None
        \<and> results (fst (searchNitterGlobal pf net now q limit opts w)) = collected s
        \<and> length (fetchedPaths s) = page s
        \<and> (page s = 10 \<or> nextPath s = None \<or> nextPath s = Some [] \<or> limit \<le> int (length (collected s)))"
      using none cnt by simp
  qed
  have b: "cleanInstances (instances opts) \<noteq> [] \<and> 0 \<le> retriesPerInstance opts
        \<and> (isAbsolute p \<longrightarrow> urlPath pf p \<noteq> None) \<and> (\<forall>n u. \<not> isl (attemptOnce (net n u)))
        \<and> (\<forall>doc. extractShowMorePath pf doc = Inr (Some p)) \<and> p \<noteq> [] \<longrightarrow>
        t = None \<and> (length (fetchedPaths s) = 10 \<or> limit \<le> int (length (collected s)))"
  proof (intro impI, elim conjE)
    assume h: "cleanInstances (instances opts) \<noteq> []" "0 \<le> retriesPerInstance opts"
      "isAbsolute p \<longrightarrow> urlPath pf p \<noteq> None" "\<forall>n u. \<not> isl (attemptOnce (net n u))"
      "\<forall>doc. extractShowMorePath pf doc = Inr (Some p)" "p \<noteq> []"
    have "nextPath ?s0 = Some (firstPath pf q)" "firstPath pf q \<noteq> []" "page ?s0 \<le> 10"
      "isAbsolute (firstPath pf q) \<longrightarrow> urlPath pf (firstPath pf q) \<noteq> None"
      by (simp_all add: firstPath_def isAbsolute_def lower_char_def)
    from pageLoop_cyclic[OF h run this]
    have "t = None" "page s = 10 \<or> limit \<le> int (length (collected s))" by simp_all
    with cnt show "t = None \<and> (length (fetchedPaths s) = 10 \<or> limit \<le> int (length (collected s)))"
      by auto
  qed
  from bound a b show ?thesis
    unfolding sl fst_conv snd_conv by blast
qed

lemma appendPage_set: "set (appendPage limit acc ts) \<subseteq> set acc \<union> set ts"
  by (induction limit acc ts rule: appendPage.induct) auto

lemma pageLoop_ids:
  "pageLoop pf net limit opts s = (t, s') \<Longrightarrow>
   \<forall>doc b. tweetId ` set (extractTweetsFromHtml pf doc b) \<subseteq> I \<Longrightarrow>
   tweetId ` set (collected s) \<subseteq> I \<Longrightarrow> tweetId ` set (collected s') \<subseteq> I"
proof (induction pf net limit opts s arbitrary: t s' rule: pageLoop.induct)
  case (1 pf net limit opts s)
  note run0 = "1.prems"(1) and pages = "1.prems"(2) and start = "1.prems"(3)
  show ?case
  proof (cases "nextPath s")
    case None
    with run0 start show ?thesis by (simp add: pageLoop.simps[of pf net limit opts s])
  next
    case (Some pth)
    show ?thesis
    proof (cases "page s < 10 \<and> pth \<noteq> [] \<and> int (length (collected s)) < limit")
      case False
      with Some run0 start show ?thesis by (auto simp add: pageLoop.simps[of pf net limit opts s])
    next
      case True
      obtain r w' where f: "fetchHtmlWithFallback (urlPath pf) net pth opts (onWire s) = (r, w')"
        by (cases "fetchHtmlWithFallback (urlPath pf) net pth opts (onWire s)")
      show ?thesis
      proof (cases r)
        case (Inl err)
        with True Some f run0 start show ?thesis
          by (auto simp add: pageLoop.simps[of pf net limit opts s])
      next
        case (Inr got)
        let ?s1 = "s\<lparr>fetchedPaths := fetchedPaths s @ [pth], onWire := w',
                             instanceUsedForLastFetch := instanceUsed got,
                             collected := appendPage limit (collected s)
                                (extractTweetsFromHtml pf (html got) (instanceUsed got))\<rparr>"
        have "tweetId ` set (collected ?s1)
            \<subseteq> tweetId ` (set (collected s) \<union> set (extractTweetsFromHtml pf (html got) (instanceUsed got)))"
          by (rule image_mono) (simp add: appendPage_set)
        also have "\<dots> = tweetId ` set (collected s)
            \<union> tweetId ` set (extractTweetsFromHtml pf (html got) (instanceUsed got))"
          by (rule image_Un)
        also have "\<dots> \<subseteq> I"
          by (rule Un_least[OF start pages[THEN spec, THEN spec]])
        finally have s1: "tweetId ` set (collected ?s1) \<subseteq> I" .
        show ?thesis
        proof (cases "int (length (collected ?s1)) < limit")
          case lt: True
          show ?thesis
          proof (cases "extractShowMorePath pf (html got)")
            case (Inl err)
            with lt True Some f Inr run0 have "s' = ?s1"
              by (simp add: pageLoop.simps[of pf net limit opts s] Let_def)
            with s1 show ?thesis by simp
          next
            case (Inr np)
            let ?s2 = "?s1\<lparr>nextPath := np, page := Suc (page s)\<rparr>"
            from lt True Some f \<open>r = Inr got\<close> Inr run0
            have run: "pageLoop pf net limit opts ?s2 = (t, s')"
              by (simp add: pageLoop.simps[of pf net limit opts s] Let_def)
            have "tweetId ` set (collected ?s2) \<subseteq> I" using s1 by simp
            from "1.IH"(1)[OF Some True f[symmetric] \<open>r = Inr got\<close> refl lt Inr run pages this]
            show ?thesis .
          qed
        next
          case ge: False
          let ?s2 = "?s1\<lparr>nextPath := None, page := Suc (page s)\<rparr>"
          from ge True Some f Inr run0
          have run: "pageLoop pf net limit opts ?s2 = (t, s')"
            by (simp add: pageLoop.simps[of pf net limit opts s] Let_def)
          have "tweetId ` set (collected ?s2) \<subseteq> I" using s1 by simp
          from "1.IH"(2)[OF Some True f[symmetric] Inr refl ge run pages this]
          show ?thesis .
        qed
      qed
    qed
  qed
qed

lemma cyclic_ids:
  "tweetId ` set (extractTweetsFromHtml cyclicPlatform doc b) \<subseteq> {''1'', ''2'', ''3''}"
  by (simp add: cyclicPlatform_def twoPagePlatform_def extractTweetsFromHtml_def extractTweet_def
        List.map_filter_def lastSegment_def mkItem_def trim_def is_space_def Let_def)

lemma cyclic_collected_short:
  "length (collected (snd (searchLoop cyclicPlatform cyclicNet ''foo'' 50 twoMirrors wire0))) \<le> 3"
proof -
  let ?run = "searchLoop cyclicPlatform cyclicNet ''foo'' 50 twoMirrors wire0"
  obtain t s where run: "?run = (t, s)" by (cases ?run)
  have ids: "tweetId ` set (collected s) \<subseteq> {''1'', ''2'', ''3''}"
    using pageLoop_ids[OF run[unfolded searchLoop_def], of "{''1'', ''2'', ''3''}"] cyclic_ids
    by simp
  have "distinct (map tweetId (collected s))"
    using searchLoop_distinct[of cyclicPlatform cyclicNet "''foo''" 50 twoMirrors wire0] run by simp
  then have "card (set (map tweetId (collected s))) = length (map tweetId (collected s))"
    by (rule distinct_card)
  then have "length (collected s) = card (tweetId ` set (collected s))"
    by (simp only: length_map set_map)
  also have "\<dots> \<le> card {''1'', ''2'', ''3''::string}"
    by (rule card_mono[OF _ ids]) simp
  also have "\<dots> \<le> 3" by (simp add: card_insert_if)
  finally show ?thesis using run by simp
qed

lemma cyclic_more: "extractShowMorePath cyclicPlatform doc = Inr (Some ''/search?f=tweets&q=foo'')"
  by (simp add: extractShowMorePath_def cyclicPlatform_def)

theorem search_stops_within_ten_pages_witness:
  "fst (searchLoop cyclicPlatform cyclicNet ''foo'' 50 twoMirrors wire0) = None
   \<and> error (fst (searchNitterGlobal cyclicPlatform cyclicNet 0 ''foo'' 50 twoMirrors wire0)) = None
   \<and> length (fetchedPaths (snd (searchLoop cyclicPlatform cyclicNet ''foo'' 50 twoMirrors wire0))) = 10"
proof -
  have "\<not> isAbsolute ''/search?f=tweets&q=foo''"
    by (simp add: isAbsolute_def lower_char_def)
  moreover have "0 \<le> retriesPerInstance twoMirrors"
    by (simp add: twoMirrors_def)
  moreover have "\<forall>n u. \<not> isl (attemptOnce (cyclicNet n u))"
    by (simp add: cyclicNet_def pageA_plausible del: attemptOnce.simps(2))
  ultimately have h: "cleanInstances (instances twoMirrors) \<noteq> [] \<and> 0 \<le> retriesPerInstance twoMirrors
        \<and> (isAbsolute ''/search?f=tweets&q=foo'' \<longrightarrow> urlPath cyclicPlatform ''/search?f=tweets&q=foo'' \<noteq> None)
        \<and> (\<forall>n u. \<not> isl (attemptOnce (cyclicNet n u)))
        \<and> (\<forall>doc. extractShowMorePath cyclicPlatform doc = Inr (Some ''/search?f=tweets&q=foo''))
        \<and> ''/search?f=tweets&q=foo'' \<noteq> []"
    by (simp add: twoMirrors_clean cyclic_more del: attemptOnce.simps(2))
  note T = search_stops_within_ten_pages[of cyclicPlatform cyclicNet "''foo''" 50 twoMirrors wire0 0
      "''/search?f=tweets&q=foo''"]
  from T have b: "length (fetchedPaths (snd (searchLoop cyclicPlatform cyclicNet ''foo'' 50 twoMirrors wire0))) \<le> 10"
    by (rule conjunct1)
  from T[THEN conjunct2, THEN conjunct2] h
  have c: "fst (searchLoop cyclicPlatform cyclicNet ''foo'' 50 twoMirrors wire0) = None
     \<and> (length (fetchedPaths (snd (searchLoop cyclicPlatform cyclicNet ''foo'' 50 twoMirrors wire0))) = 10
       \<or> 50 \<le> int (length (collected (snd (searchLoop cyclicPlatform cyclicNet ''foo'' 50 twoMirrors wire0)))))"
    by (rule mp)
  from T[THEN conjunct2, THEN conjunct1] c
  have e: "error (fst (searchNitterGlobal cyclicPlatform cyclicNet 0 ''foo'' 50 twoMirrors wire0)) = None"
    by simp
  from c cyclic_collected_short
  have "length (fetchedPaths (snd (searchLoop cyclicPlatform cyclicNet ''foo'' 50 twoMirrors wire0))) = 10"
    by linarith
  with c e show ?thesis by simp
qed

lemma pageLoop_fetch_failure:
  assumes "nextPath s = Some pth" "page s < 10" "pth \<noteq> []" "int (length (collected s)) < limit"
    and "fetchHtmlWithFallback (urlPath pf) net pth opts (onWire s) = (Inl err, w')"
  shows "pageLoop pf net limit opts s = (Some err, s\<lparr>fetchedPaths := fetchedPaths s @ [pth], onWire := w'\<rparr>)"
  using assms by (simp add: pageLoop.simps[of pf net limit opts s])

text \<open>
  Claim C5.  A fetch failure inside the page loop, the exhaustion of all mirrors and
  retries included, does not leave \<open>searchNitterGlobal\<close> as an exception: the function
  is total and answers with a response.  When the loop was left by an exception, the
  response holds the records accumulated so far and an error string of the form
  \<open>Failed after fetching n results: message\<close>, where \<open>n\<close> is the number of these
  records.  A failing fetch leaves the accumulator as it was, and the loop only ever
  extends the accumulator.
\<close>

theorem search_failure_returns_partial_results:
  "(\<forall>err s. searchLoop pf net q limit opts w = (Some err, s) \<longrightarrow>
      fst (searchNitterGlobal pf net now q limit opts w) =
        \<lparr>query = q, instanceUsed' = reportedInstance (instanceUsedForLastFetch s) opts,
         fetchedAt = now, results = collected s,
         error = Some (''Failed after fetching '' @ show_nat (length (collected s))
                       @ '' results: '' @ message err)\<rparr>)
   \<and> (\<forall>s pth err w'.
        nextPath s = Some pth \<and> page s < 10 \<and> pth \<noteq> [] \<and> int (length (collected s)) < limit \<and>
        fetchHtmlWithFallback (urlPath pf) net pth opts (onWire s) = (Inl err, w') \<longrightarrow>
        fst (pageLoop pf net limit opts s) = Some err \<and>
        collected (snd (pageLoop pf net limit opts s)) = collected s)
   \<and> (\<forall>s. prefix (collected s) (collected (snd (pageLoop pf net limit opts s))))
   \<and> (\<forall>e. error (fst (searchNitterGlobal pf net now q limit opts w)) = Some e \<longrightarrow>
        (\<exists>msg. e = ''Failed after fetching ''
                    @ show_nat (length (results (fst (searchNitterGlobal pf net now q limit opts w))))
                    @ '' results: '' @ msg))"
proof -
  have a: "\<forall>err s. searchLoop pf net q limit opts w = (Some err, s) \<longrightarrow>
      fst (searchNitterGlobal pf net now q limit opts w) =
        \<lparr>query = q, instanceUsed' = reportedInstance (instanceUsedForLastFetch s) opts,
         fetchedAt = now, results = collected s,
         error = Some (''Failed after fetching '' @ show_nat (length (collected s))
                       @ '' results: '' @ message err)\<rparr>"
    by (simp add: searchNitterGlobal_def)
  have b: "\<forall>s pth err w'.
        nextPath s = Some pth \<and> page s < 10 \<and> pth \<noteq> [] \<and> int (length (collected s)) < limit \<and>
        fetchHtmlWithFallback (urlPath pf) net pth opts (onWire s) = (Inl err, w') \<longrightarrow>
        fst (pageLoop pf net limit opts s) = Some err \<and>
        collected (snd (pageLoop pf net limit opts s)) = collected s"
    by (auto simp: pageLoop_fetch_failure)
  have c: "\<forall>s. prefix (collected s) (collected (snd (pageLoop pf net limit opts s)))"
  proof
    fix s
    obtain t s' where "pageLoop pf net limit opts s = (t, s')"
      by (cases "pageLoop pf net limit opts s")
    from pageLoop_invariants[OF this] this
    show "prefix (collected s) (collected (snd (pageLoop pf net limit opts s)))" by simp
  qed
  have d: "\<forall>e. error (fst (searchNitterGlobal pf net now q limit opts w)) = Some e \<longrightarrow>
        (\<exists>msg. e = ''Failed after fetching ''
                    @ show_nat (length (results (fst (searchNitterGlobal pf net now q limit opts w))))
                    @ '' results: '' @ msg)"
    by (cases "searchLoop pf net q limit opts w")
       (auto simp: searchNitterGlobal_def split: option.splits)
  from a b c d show ?thesis by blast
qed

theorem search_failure_returns_partial_results_witness:
  "map tweetId (results (fst (searchNitterGlobal twoPagePlatform dyingNet 0 ''foo'' 3 twoMirrors wire0)))
     = [''1'', ''2'']
   \<and> error (fst (searchNitterGlobal twoPagePlatform dyingNet 0 ''foo'' 3 twoMirrors wire0))
     = Some ''Failed after fetching 2 results: All Nitter instances failed. Last error: fetch failed''"
proof -
  obtain t s where run: "searchLoop twoPagePlatform dyingNet ''foo'' 3 twoMirrors wire0 = (t, s)"
    by (cases "searchLoop twoPagePlatform dyingNet ''foo'' 3 twoMirrors wire0")
  with dying_run have t: "t = Some (Error ''All Nitter instances failed. Last error: fetch failed'')"
    and ids: "map tweetId (collected s) = [''1'', ''2'']"
    by simp_all
  from ids have len: "length (collected s) = 2"
    by (metis length_map length_Cons list.size(3) numeral_2_eq_2)
  from search_failure_returns_partial_results[of twoPagePlatform dyingNet "''foo''" 3 twoMirrors wire0 0]
    run t
  have "fst (searchNitterGlobal twoPagePlatform dyingNet 0 ''foo'' 3 twoMirrors wire0) =
        \<lparr>query = ''foo'', instanceUsed' = reportedInstance (instanceUsedForLastFetch s) twoMirrors,
         fetchedAt = 0, results = collected s,
         error = Some (''Failed after fetching '' @ show_nat (length (collected s))
                       @ '' results: '' @ message (Error ''All Nitter instances failed. Last error: fetch failed''))\<rparr>"
    by blast
  with ids len show ?thesis
    by (simp add: show_nat.simps digit_char_def)
qed

section \<open>Properties of the Monitor Engine\<close>

lemma unknown_likes_never_growth:
  "\<not> ((0 - p) / orOne p \<ge> 1 / 2 \<and> 0 - p \<ge> (5::rat))"
proof
  assume a: "(0 - p) / orOne p \<ge> 1 / 2 \<and> 0 - p \<ge> (5::rat)"
  then have neg: "p < 0" by simp
  then have "orOne p = p" by (simp add: orOne_def)
  with neg have "(0 - p) / orOne p = - 1" by simp
  with a show False by simp
qed

lemma decide_seen:
  assumes seen: "seenTweets st (tweetId tweet) = Some prev"
    and fresh: "\<forall>tt. createdAt tweet = Some tt \<longrightarrow> now - tt \<le> THREE_DAYS_MS"
  shows "decide threshold now st tweet =
           (if growthPerSpec threshold (likes' prev) (likes tweet)
            then Alerted (TractionSpike (likes' prev) (orZero (likes tweet)))
            else Unchanged)"
proof -
  let ?cur = "orZero (likes tweet)" and ?p = "likes' prev"
  let ?cond = "?cur \<ge> threshold \<and> (?cur - ?p) / orOne ?p \<ge> 1 / 2 \<and> ?cur - ?p \<ge> 5"
  from fresh have nostale: "\<not> (case createdAt tweet of None \<Rightarrow> False | Some tweetTime \<Rightarrow> now - tweetTime > THREE_DAYS_MS)"
    by (cases "createdAt tweet") auto
  have dec: "decide threshold now st tweet = (if ?cond then Alerted (TractionSpike ?p ?cur) else Unchanged)"
    unfolding decide_def Let_def using seen nostale by auto
  have "?cond \<longleftrightarrow> growthPerSpec threshold ?p (likes tweet)"
  proof (cases "likes tweet")
    case None
    then have "?cur = 0" by (simp add: orZero_def)
    with unknown_likes_never_growth[of ?p] have "\<not> ?cond" by metis
    with None show ?thesis by (simp add: growthPerSpec_def)
  next
    case (Some c)
    have cur: "orZero (Some c) = c" by (simp add: orZero_def)
    have "c - ?p \<ge> 5 \<Longrightarrow> c > ?p" by simp
    then show ?thesis
      unfolding Some cur growthPerSpec_def orOne_def by auto
  qed
  with dec show ?thesis by simp
qed

lemma processTweet_unchanged:
  "decide (tractionThreshold env) now (monitorState c) tweet = Unchanged \<Longrightarrow>
   processTweet post env sink now monitor tweet c = (None, updateState now tweet c)"
  by (simp add: processTweet_def)

text \<open>
  Claim C1.  For a record that reaches the classification (it is not skipped as older than
  three days) and whose identifier has a stored entry, the engine alerts with the growth
  reason exactly when the growth rule of the specification holds: the like count is known
  and at least the threshold, it exceeds the stored count, the increase divided by the
  stored count (one for a stored zero) is at least one half, and the increase is at least
  five.  Otherwise the record is unchanged and the loop body hands no alert to the sink.
  With the default threshold 5 and a stored count of 10, a count of 14 is unchanged and a
  count of 16 is growth.
\<close>

theorem growth_classification:
  assumes seen: "seenTweets (monitorState c) (tweetId tweet) = Some prev"
    and fresh: "\<forall>tt. createdAt tweet = Some tt \<longrightarrow> now - tt \<le> THREE_DAYS_MS"
  shows "(growthPerSpec (tractionThreshold env) (likes' prev) (likes tweet) \<longrightarrow>
            decide (tractionThreshold env) now (monitorState c) tweet
              = Alerted (TractionSpike (likes' prev) (orZero (likes tweet))))
       \<and> (\<not> growthPerSpec (tractionThreshold env) (likes' prev) (likes tweet) \<longrightarrow>
            decide (tractionThreshold env) now (monitorState c) tweet = Unchanged
            \<and> outbox (snd (processTweet post env sink now monitor tweet c)) = outbox c)
       \<and> (tractionThreshold env = 5 \<and> likes' prev = 10 \<and> likes tweet = Some 14 \<longrightarrow>
            decide (tractionThreshold env) now (monitorState c) tweet = Unchanged)
       \<and> (tractionThreshold env = 5 \<and> likes' prev = 10 \<and> likes tweet = Some 16 \<longrightarrow>
            decide (tractionThreshold env) now (monitorState c) tweet = Alerted (TractionSpike 10 16))"
proof -
  note d = decide_seen[OF seen fresh, of "tractionThreshold env"]
  have a: "growthPerSpec (tractionThreshold env) (likes' prev) (likes tweet) \<longrightarrow>
            decide (tractionThreshold env) now (monitorState c) tweet
              = Alerted (TractionSpike (likes' prev) (orZero (likes tweet)))"
    using d by simp
  have b: "\<not> growthPerSpec (tractionThreshold env) (likes' prev) (likes tweet) \<longrightarrow>
            decide (tractionThreshold env) now (monitorState c) tweet = Unchanged
            \<and> outbox (snd (processTweet post env sink now monitor tweet c)) = outbox c"
    using d by (simp add: processTweet_unchanged updateState_def)
  have e14: "tractionThreshold env = 5 \<and> likes' prev = 10 \<and> likes tweet = Some 14 \<longrightarrow>
            decide (tractionThreshold env) now (monitorState c) tweet = Unchanged"
    using d by (auto simp: growthPerSpec_def)
  have e16: "tractionThreshold env = 5 \<and> likes' prev = 10 \<and> likes tweet = Some 16 \<longrightarrow>
            decide (tractionThreshold env) now (monitorState c) tweet = Alerted (TractionSpike 10 16)"
    using d by (auto simp: growthPerSpec_def orZero_def)
  from a b e14 e16 show ?thesis by blast
qed

theorem growth_classification_witness:
  "decide 5 2000 tenLikes (tweet42 (Some 14)) = Unchanged
   \<and> decide 5 2000 tenLikes (tweet42 (Some 16)) = Alerted (TractionSpike 10 16)
   \<and> decide 5 2000 tenLikes (tweet42 None) = Unchanged"
proof -
  let ?env = "\<lparr>enrichKey = False, enrich = (\<lambda>t. Inr None), tractionThreshold = 5\<rparr>"
  let ?c = "\<lparr>monitorState = tenLikes, outbox = [], cycleWire = wire0\<rparr>"
  let ?prev = "\<lparr>likes' = 10, retweets' = 1, replies' = 0, lastChecked = 1000\<rparr>"
  let ?m = "\<lparr>key = ''default'', query' = ''foo'', label = ''Main Keywords''\<rparr>"
  have seen: "\<And>n. seenTweets (monitorState ?c) (tweetId (tweet42 n)) = Some ?prev"
    by (simp add: tenLikes_def tweet42_def)
  have fresh: "\<And>n. \<forall>tt. createdAt (tweet42 n) = Some tt \<longrightarrow> 2000 - tt \<le> THREE_DAYS_MS"
    by (simp add: tweet42_def)
  have g: "\<And>n. (growthPerSpec (tractionThreshold ?env) (likes' ?prev) (likes (tweet42 n)) \<longrightarrow>
            decide (tractionThreshold ?env) 2000 (monitorState ?c) (tweet42 n)
              = Alerted (TractionSpike (likes' ?prev) (orZero (likes (tweet42 n)))))
       \<and> (\<not> growthPerSpec (tractionThreshold ?env) (likes' ?prev) (likes (tweet42 n)) \<longrightarrow>
            decide (tractionThreshold ?env) 2000 (monitorState ?c) (tweet42 n) = Unchanged
            \<and> outbox (snd (processTweet postToDiscord ?env (\<lambda>n. SinkRejected ''down'') 2000 ?m (tweet42 n) ?c)) = outbox ?c)
       \<and> (tractionThreshold ?env = 5 \<and> likes' ?prev = 10 \<and> likes (tweet42 n) = Some 14 \<longrightarrow>
            decide (tractionThreshold ?env) 2000 (monitorState ?c) (tweet42 n) = Unchanged)
       \<and> (tractionThreshold ?env = 5 \<and> likes' ?prev = 10 \<and> likes (tweet42 n) = Some 16 \<longrightarrow>
            decide (tractionThreshold ?env) 2000 (monitorState ?c) (tweet42 n) = Alerted (TractionSpike 10 16))"
    by (rule growth_classification[OF seen fresh])
  have "decide 5 2000 tenLikes (tweet42 (Some 14)) = Unchanged"
    using g[of "Some 14"] by (simp add: tweet42_def)
  moreover have "decide 5 2000 tenLikes (tweet42 (Some 16)) = Alerted (TractionSpike 10 16)"
    using g[of "Some 16"] by (simp add: tweet42_def)
  moreover have "\<not> growthPerSpec 5 10 None" by (simp add: growthPerSpec_def)
  then have "decide 5 2000 tenLikes (tweet42 None) = Unchanged"
    using g[of None] by (simp add: tweet42_def)
  ultimately show ?thesis by simp
qed

lemma parseCount_unknown:
  "raw = None \<or> raw = Some [] \<or>
   (\<exists>r. raw = Some r \<and> (remove_commas (trim r) = [] \<or> \<not> isFinite (toN (remove_commas (trim r)))))
   \<Longrightarrow> parseCount toN raw = None"
  by (auto simp: parseCount_def Let_def split: js_number.splits)

lemma parseCount_known:
  "parseCount toN raw = Some n \<Longrightarrow> \<exists>r. raw = Some r \<and> toN (remove_commas (trim r)) = Finite n"
  by (auto simp: parseCount_def Let_def split: option.splits if_splits js_number.splits)

lemma extractTweet_counters:
  "extractTweet pf base el = Some t \<Longrightarrow>
   replies t = parseCount (toNumber pf) (Some (commentStat el)) \<and>
   retweets t = parseCount (toNumber pf) (Some (retweetStat el)) \<and>
   quotes t = parseCount (toNumber pf) (Some (quoteStat el)) \<and>
   likes t = parseCount (toNumber pf) (Some (heartStat el))"
  by (auto simp: extractTweet_def Let_def split: if_splits)

text \<open>
  Claim C2, as stated, fails: the engine reads every counter through \<open>|| 0\<close>.  For the
  stored entry with ten likes, a record with an unknown like count and a record with a
  like count of zero get the same verdict, and the entry stored for the record with the
  unknown counters holds zeros.
\<close>

theorem unknown_counter_distinguished_counterexample:
  "decide 5 2000 tenLikes (tweet42 None) = decide 5 2000 tenLikes (tweet42 (Some 0))
   \<and> seenTweets (monitorState (snd (processTweet postToDiscord plainSettings sinkUp 2000 mainMonitor
                                      (tweet42 None) cycleTen))) ''42''
     = seenTweets (monitorState (snd (processTweet postToDiscord plainSettings sinkUp 2000 mainMonitor
                                      (tweet42 (Some 0)) cycleTen))) ''42''
   \<and> seenTweets (monitorState (snd (processTweet postToDiscord plainSettings sinkUp 2000 mainMonitor
                                      (tweet42 None) cycleTen))) ''42''
     = Some \<lparr>likes' = 0, retweets' = 0, replies' = 0, lastChecked = 2000\<rparr>"
  by (simp add: processTweet_def decide_def tenLikes_def tweet42_def plainSettings_def cycleTen_def
        orZero_def orOne_def updateState_def observed_def THREE_DAYS_MS_def Let_def)

text \<open>
  Claim C2, amended.  The extractor keeps a counter that is absent, blank or not a finite
  number as unknown: \<open>parseCount\<close> answers with a number only when \<open>Number\<close> gave that
  finite number, and the four counters of an extracted record are what \<open>parseCount\<close>
  answers.  The engine then reads an unknown counter as zero: the verdict and the stored
  entry are the same for an unknown like, repost or reply count as for a count of zero.
\<close>

theorem unknown_counter_kept_by_extractor_zero_in_engine:
  "(raw = None \<or> raw = Some [] \<or>
    (\<exists>r. raw = Some r \<and> (remove_commas (trim r) = [] \<or> \<not> isFinite (toN (remove_commas (trim r)))))
    \<longrightarrow> parseCount toN raw = None)
   \<and> (\<forall>n. parseCount toN raw = Some n \<longrightarrow>
          (\<exists>r. raw = Some r \<and> toN (remove_commas (trim r)) = Finite n))
   \<and> (\<forall>t. extractTweet pf base el = Some t \<longrightarrow>
          replies t = parseCount (toNumber pf) (Some (commentStat el)) \<and>
          retweets t = parseCount (toNumber pf) (Some (retweetStat el)) \<and>
          quotes t = parseCount (toNumber pf) (Some (quoteStat el)) \<and>
          likes t = parseCount (toNumber pf) (Some (heartStat el)))
   \<and> decide threshold now st (tweet\<lparr>likes := None\<rparr>) = decide threshold now st (tweet\<lparr>likes := Some 0\<rparr>)
   \<and> observed now (tweet\<lparr>likes := None\<rparr>) = observed now (tweet\<lparr>likes := Some 0\<rparr>)
   \<and> observed now (tweet\<lparr>retweets := None\<rparr>) = observed now (tweet\<lparr>retweets := Some 0\<rparr>)
   \<and> observed now (tweet\<lparr>replies := None\<rparr>) = observed now (tweet\<lparr>replies := Some 0\<rparr>)
   \<and> observed now (tweet\<lparr>likes := None, retweets := None, replies := None\<rparr>)
       = \<lparr>likes' = 0, retweets' = 0, replies' = 0, lastChecked = now\<rparr>"
proof -
  have a: "raw = None \<or> raw = Some [] \<or>
    (\<exists>r. raw = Some r \<and> (remove_commas (trim r) = [] \<or> \<not> isFinite (toN (remove_commas (trim r)))))
    \<longrightarrow> parseCount toN raw = None"
    by (rule impI, erule parseCount_unknown)
  have b: "\<forall>n. parseCount toN raw = Some n \<longrightarrow>
          (\<exists>r. raw = Some r \<and> toN (remove_commas (trim r)) = Finite n)"
    by (intro allI impI, erule parseCount_known)
  have c: "\<forall>t. extractTweet pf base el = Some t \<longrightarrow>
          replies t = parseCount (toNumber pf) (Some (commentStat el)) \<and>
          retweets t = parseCount (toNumber pf) (Some (retweetStat el)) \<and>
          quotes t = parseCount (toNumber pf) (Some (quoteStat el)) \<and>
          likes t = parseCount (toNumber pf) (Some (heartStat el))"
    by (intro allI impI, erule extractTweet_counters)
  have d: "decide threshold now st (tweet\<lparr>likes := None\<rparr>) = decide threshold now st (tweet\<lparr>likes := Some 0\<rparr>)"
    by (simp add: decide_def orZero_def)
  have e: "observed now (tweet\<lparr>likes := None\<rparr>) = observed now (tweet\<lparr>likes := Some 0\<rparr>)"
    "observed now (tweet\<lparr>retweets := None\<rparr>) = observed now (tweet\<lparr>retweets := Some 0\<rparr>)"
    "observed now (tweet\<lparr>replies := None\<rparr>) = observed now (tweet\<lparr>replies := Some 0\<rparr>)"
    "observed now (tweet\<lparr>likes := None, retweets := None, replies := None\<rparr>)
       = \<lparr>likes' = 0, retweets' = 0, replies' = 0, lastChecked = now\<rparr>"
    by (simp_all add: observed_def orZero_def)
  show ?thesis by (rule conjI[OF a conjI[OF b conjI[OF c conjI[OF d conjI[OF e(1) conjI[OF e(2) conjI[OF e(3) e(4)]]]]]]])
qed

theorem unknown_counter_kept_by_extractor_zero_in_engine_witness:
  "parseCount (toNumber twoPagePlatform) (Some ''n/a'') = None
   \<and> parseCount (toNumber twoPagePlatform) (Some '' 1,204 '') = Some 1204
   \<and> toNumber twoPagePlatform ''1204'' = Finite 1204
   \<and> decide 5 2000 tenLikes (tweet42 None) = decide 5 2000 tenLikes (tweet42 (Some 0))"
proof -
  note T = unknown_counter_kept_by_extractor_zero_in_engine
  have nan: "\<not> isFinite (toNumber twoPagePlatform (remove_commas (trim ''n/a'')))"
    by (simp add: twoPagePlatform_def remove_commas_def trim_def is_space_def)
  have "\<exists>r. Some ''n/a'' = Some r \<and> (remove_commas (trim r) = [] \<or>
          \<not> isFinite (toNumber twoPagePlatform (remove_commas (trim r))))"
    using nan by simp
  then have a: "parseCount (toNumber twoPagePlatform) (Some ''n/a'') = None"
    using T[where raw = "Some ''n/a''" and toN = "toNumber twoPagePlatform", THEN conjunct1] by simp
  have b: "parseCount (toNumber twoPagePlatform) (Some '' 1,204 '') = Some 1204"
    by (simp add: parseCount_def twoPagePlatform_def remove_commas_def trim_def is_space_def)
  from T[where raw = "Some '' 1,204 ''" and toN = "toNumber twoPagePlatform", THEN conjunct2, THEN conjunct1,
      THEN spec, THEN mp, OF b]
  have "\<exists>r. Some '' 1,204 '' = Some r \<and> toNumber twoPagePlatform (remove_commas (trim r)) = Finite 1204" .
  then have c: "toNumber twoPagePlatform ''1204'' = Finite 1204"
    by (simp add: remove_commas_def trim_def is_space_def)
  from T[where threshold = 5 and now = 2000 and st = tenLikes and tweet = "tweet42 None",
      THEN conjunct2, THEN conjunct2, THEN conjunct2, THEN conjunct1]
  have "decide 5 2000 tenLikes (tweet42 None\<lparr>likes := None\<rparr>) = decide 5 2000 tenLikes (tweet42 None\<lparr>likes := Some 0\<rparr>)" .
  then have d: "decide 5 2000 tenLikes (tweet42 None) = decide 5 2000 tenLikes (tweet42 (Some 0))"
    by (simp add: tweet42_def)
  from a b c d show ?thesis by simp
qed

lemma postToDiscord_returns: "postToDiscord outcome = Inr ()"
  by (simp add: postToDiscord_def split: sum.splits)

lemma processTweet_caught:
  assumes "sameAlerts c c'"
  shows "fst (processTweet postToDiscord env sink now monitor tweet c) = None
       \<and> sameAlerts (snd (processTweet postToDiscord env sink now monitor tweet c))
                     (snd (processTweet postToDiscord env sink' now monitor tweet c'))"
proof -
  from assms have st: "monitorState c = monitorState c'" and ob: "map fst (outbox c) = map fst (outbox c')"
    and w: "cycleWire c = cycleWire c'"
    by (simp_all add: sameAlerts_def)
  show ?thesis
  proof (cases "decide (tractionThreshold env) now (monitorState c) tweet")
    case Skipped
    with st assms show ?thesis by (simp add: processTweet_def)
  next
    case Unchanged
    with st ob w show ?thesis by (simp add: processTweet_def sameAlerts_def updateState_def)
  next
    case (Alerted why)
    with st ob w show ?thesis
      by (simp add: processTweet_def sameAlerts_def updateState_def postToDiscord_returns Let_def)
  qed
qed

lemma processTweets_caught:
  "sameAlerts c c' \<Longrightarrow>
   fst (processTweets postToDiscord env sink now monitor tweets c) = None
   \<and> sameAlerts (snd (processTweets postToDiscord env sink now monitor tweets c))
                 (snd (processTweets postToDiscord env sink' now monitor tweets c'))"
proof (induction tweets arbitrary: c c')
  case Nil
  then show ?case by simp
next
  case (Cons tweet rest)
  obtain c1 where s1: "processTweet postToDiscord env sink now monitor tweet c = (None, c1)"
    using processTweet_caught[OF Cons.prems, of env sink now monitor tweet]
    by (cases "processTweet postToDiscord env sink now monitor tweet c") auto
  have same: "sameAlerts c' c'" by (simp add: sameAlerts_def)
  obtain c1' where s1': "processTweet postToDiscord env sink' now monitor tweet c' = (None, c1')"
    using processTweet_caught[OF same, of env sink' now monitor tweet]
    by (cases "processTweet postToDiscord env sink' now monitor tweet c'") auto
  from processTweet_caught[OF Cons.prems, of env sink now monitor tweet sink'] s1 s1'
  have "sameAlerts c1 c1'" by simp
  from Cons.IH[OF this] s1 s1' show ?case by simp
qed

lemma processMonitor_caught:
  assumes "sameAlerts c c'"
  shows "fst (processMonitor postToDiscord env pf net sink now opts monitor c) = None
       \<and> sameAlerts (snd (processMonitor postToDiscord env pf net sink now opts monitor c))
                     (snd (processMonitor postToDiscord env pf net sink' now opts monitor c'))"
proof -
  from assms have w: "cycleWire c = cycleWire c'" by (simp add: sameAlerts_def)
  obtain res w' where sr: "searchNitterGlobal pf net now (query' monitor) 50 opts (cycleWire c) = (res, w')"
    by (cases "searchNitterGlobal pf net now (query' monitor) 50 opts (cycleWire c)")
  from assms have same: "sameAlerts (c\<lparr>cycleWire := w'\<rparr>) (c'\<lparr>cycleWire := w'\<rparr>)"
    by (simp add: sameAlerts_def)
  note pt = processTweets_caught[OF same, of env sink now monitor "results res" sink']
  show ?thesis
  proof (cases "\<exists>e. error res = Some e \<and> e \<noteq> []")
    case True
    with sr w same show ?thesis by (auto simp: processMonitor_def)
  next
    case False
    with sr w have "processMonitor postToDiscord env pf net sink now opts monitor c
        = processTweets postToDiscord env sink now monitor (results res) (c\<lparr>cycleWire := w'\<rparr>)"
      "processMonitor postToDiscord env pf net sink' now opts monitor c'
        = processTweets postToDiscord env sink' now monitor (results res) (c'\<lparr>cycleWire := w'\<rparr>)"
      by (auto simp: processMonitor_def split: option.splits)
    with pt show ?thesis by simp
  qed
qed

lemma monitorsLoop_caught:
  "sameAlerts c c' \<Longrightarrow>
   fst (monitorsLoop postToDiscord env pf net sink clock opts k monitors c) = None
   \<and> sameAlerts (snd (monitorsLoop postToDiscord env pf net sink clock opts k monitors c))
                 (snd (monitorsLoop postToDiscord env pf net sink' clock opts k monitors c'))"
proof (induction monitors arbitrary: k c c')
  case Nil
  then show ?case by simp
next
  case (Cons monitor rest)
  obtain c1 where s1: "processMonitor postToDiscord env pf net sink (clock k) opts monitor c = (None, c1)"
    using processMonitor_caught[OF Cons.prems, of env pf net sink "clock k" opts monitor]
    by (cases "processMonitor postToDiscord env pf net sink (clock k) opts monitor c") auto
  have same: "sameAlerts c' c'" by (simp add: sameAlerts_def)
  obtain c1' where s1': "processMonitor postToDiscord env pf net sink' (clock k) opts monitor c' = (None, c1')"
    using processMonitor_caught[OF same, of env pf net sink' "clock k" opts monitor]
    by (cases "processMonitor postToDiscord env pf net sink' (clock k) opts monitor c'") auto
  from processMonitor_caught[OF Cons.prems, of env pf net sink "clock k" opts monitor sink'] s1 s1'
  have "sameAlerts c1 c1'" by simp
  from Cons.IH[OF this] s1 s1' show ?case by simp
qed

lemma processTweet_entry_written:
  assumes "decide (tractionThreshold env) now (monitorState c) tweet \<noteq> Skipped"
  shows "seenTweets (monitorState (snd (processTweet postToDiscord env sink now monitor tweet c))) (tweetId tweet)
           = Some (observed now tweet)"
  using assms
  by (cases "decide (tractionThreshold env) now (monitorState c) tweet")
     (simp_all add: processTweet_def updateState_def postToDiscord_returns Let_def)

lemma down_run:
  "map snd (outbox (final (runMonitors postToDiscord (Some ''https://discord.example/hook'') plainSettings
       twoPagePlatform twoPageNet sinkDown (\<lambda>k. 2000) twoMirrors [mainMonitor] tenLikes wire0)))
     = [False, False, False]
   \<and> map (tweetId \<circ> payload \<circ> fst) (outbox (final (runMonitors postToDiscord (Some ''https://discord.example/hook'') plainSettings
       twoPagePlatform twoPageNet sinkDown (\<lambda>k. 2000) twoMirrors [mainMonitor] tenLikes wire0)))
     = [''1'', ''2'', ''3'']
   \<and> seenTweets (monitorState (final (runMonitors postToDiscord (Some ''https://discord.example/hook'') plainSettings
       twoPagePlatform twoPageNet sinkDown (\<lambda>k. 2000) twoMirrors [mainMonitor] tenLikes wire0))) ''3''
     = Some \<lparr>likes' = 1204, retweets' = 0, replies' = 0, lastChecked = 2000\<rparr>"
  by (simp add: runMonitors_def processMonitor_def searchNitterGlobal_def run_search run_fetch
        twoPagePlatform_def twoPageNet_def pageA_plausible pageB_plausible pageB_not_pageA
        processTweet_def decide_def tenLikes_def plainSettings_def mainMonitor_def sinkDown_def
        orZero_def orOne_def updateState_def observed_def THREE_DAYS_MS_def postToDiscord_def
        del: attemptOnce.simps(2))


lemma runMonitors_caught:
  "raised (runMonitors postToDiscord hook env pf net sink clock opts monitors loaded w) = None
   \<and> sameAlerts (final (runMonitors postToDiscord hook env pf net sink clock opts monitors loaded w))
                 (final (runMonitors postToDiscord hook env pf net sink' clock opts monitors loaded w))
   \<and> saved (runMonitors postToDiscord hook env pf net sink clock opts monitors loaded w)
       = saved (runMonitors postToDiscord hook env pf net sink' clock opts monitors loaded w)
   \<and> (hook \<noteq> None \<and> hook \<noteq> Some [] \<longrightarrow>
        saved (runMonitors postToDiscord hook env pf net sink clock opts monitors loaded w)
          = Some (monitorState (final (runMonitors postToDiscord hook env pf net sink clock opts monitors loaded w))))"
proof (cases "hook = None \<or> hook = Some []")
  case True
  then show ?thesis by (auto simp: runMonitors_def sameAlerts_def Let_def)
next
  case False
  let ?c0 = "\<lparr>monitorState = loaded, outbox = [], cycleWire = w\<rparr>"
  have same: "sameAlerts ?c0 ?c0" by (simp add: sameAlerts_def)
  obtain c1 where l: "monitorsLoop postToDiscord env pf net sink clock opts 0 monitors ?c0 = (None, c1)"
    using monitorsLoop_caught[OF same, of env pf net sink clock opts 0 monitors]
    by (cases "monitorsLoop postToDiscord env pf net sink clock opts 0 monitors ?c0") auto
  obtain c1' where l': "monitorsLoop postToDiscord env pf net sink' clock opts 0 monitors ?c0 = (None, c1')"
    using monitorsLoop_caught[OF same, of env pf net sink' clock opts 0 monitors]
    by (cases "monitorsLoop postToDiscord env pf net sink' clock opts 0 monitors ?c0") auto
  from monitorsLoop_caught[OF same, of env pf net sink clock opts 0 monitors sink'] l l'
  have "sameAlerts c1 c1'" by simp
  with False l l' show ?thesis
    by (simp add: runMonitors_def sameAlerts_def Let_def)
qed

text \<open>
  Claim C3.  With \<open>postToDiscord\<close> as the worker imports it, a failed delivery never
  leaves the call as an exception.  So whatever the sink does with each alert of a cycle,
  the cycle ends without an exception, the alerts handed to the sink and the state at the
  end are those of a cycle in which every delivery succeeds, and \<open>saveState\<close> writes that
  state.  For every record that is not skipped, the loop body ends with the entry of the
  record overwritten by the current observation, also when the delivery of its alert
  failed.
\<close>

theorem delivery_failure_blocks_nothing:
  "raised (runMonitors postToDiscord hook env pf net sink clock opts monitors loaded w) = None
   \<and> map fst (outbox (final (runMonitors postToDiscord hook env pf net sink clock opts monitors loaded w)))
       = map fst (outbox (final (runMonitors postToDiscord hook env pf net sink' clock opts monitors loaded w)))
   \<and> monitorState (final (runMonitors postToDiscord hook env pf net sink clock opts monitors loaded w))
       = monitorState (final (runMonitors postToDiscord hook env pf net sink' clock opts monitors loaded w))
   \<and> saved (runMonitors postToDiscord hook env pf net sink clock opts monitors loaded w)
       = saved (runMonitors postToDiscord hook env pf net sink' clock opts monitors loaded w)
   \<and> (hook \<noteq> None \<and> hook \<noteq> Some [] \<longrightarrow>
        saved (runMonitors postToDiscord hook env pf net sink clock opts monitors loaded w)
          = Some (monitorState (final (runMonitors postToDiscord hook env pf net sink clock opts monitors loaded w))))
   \<and> (decide (tractionThreshold env) now (monitorState c) tweet \<noteq> Skipped \<longrightarrow>
        fst (processTweet postToDiscord env sink now monitor tweet c) = None
        \<and> seenTweets (monitorState (snd (processTweet postToDiscord env sink now monitor tweet c)))
             (tweetId tweet) = Some (observed now tweet))"
proof -
  note r = runMonitors_caught[of hook env pf net sink clock opts monitors loaded w sink']
  from r have r1: "raised (runMonitors postToDiscord hook env pf net sink clock opts monitors loaded w) = None"
    by (rule conjunct1)
  from r have sa: "sameAlerts (final (runMonitors postToDiscord hook env pf net sink clock opts monitors loaded w))
                 (final (runMonitors postToDiscord hook env pf net sink' clock opts monitors loaded w))"
    by (rule conjunct1[OF conjunct2])
  from r have r3: "saved (runMonitors postToDiscord hook env pf net sink clock opts monitors loaded w)
       = saved (runMonitors postToDiscord hook env pf net sink' clock opts monitors loaded w)"
    by (rule conjunct1[OF conjunct2[OF conjunct2]])
  from r have r4: "hook \<noteq> None \<and> hook \<noteq> Some [] \<longrightarrow>
        saved (runMonitors postToDiscord hook env pf net sink clock opts monitors loaded w)
          = Some (monitorState (final (runMonitors postToDiscord hook env pf net sink clock opts monitors loaded w)))"
    by (rule conjunct2[OF conjunct2[OF conjunct2]])
  from sa have r2a: "map fst (outbox (final (runMonitors postToDiscord hook env pf net sink clock opts monitors loaded w)))
       = map fst (outbox (final (runMonitors postToDiscord hook env pf net sink' clock opts monitors loaded w)))"
    and r2b: "monitorState (final (runMonitors postToDiscord hook env pf net sink clock opts monitors loaded w))
       = monitorState (final (runMonitors postToDiscord hook env pf net sink' clock opts monitors loaded w))"
    by (simp_all add: sameAlerts_def)
  have same: "sameAlerts c c" by (simp add: sameAlerts_def)
  have r5: "decide (tractionThreshold env) now (monitorState c) tweet \<noteq> Skipped \<longrightarrow>
        fst (processTweet postToDiscord env sink now monitor tweet c) = None
        \<and> seenTweets (monitorState (snd (processTweet postToDiscord env sink now monitor tweet c)))
             (tweetId tweet) = Some (observed now tweet)"
    using processTweet_caught[OF same, of env sink now monitor tweet]
      processTweet_entry_written[of env now c tweet sink monitor]
    by simp
  show ?thesis by (intro conjI r1 r2a r2b r3 r4 r5)
qed

theorem delivery_failure_blocks_nothing_witness:
  "map snd (outbox (final (runMonitors postToDiscord (Some ''https://discord.example/hook'') plainSettings
       twoPagePlatform twoPageNet sinkDown (\<lambda>k. 2000) twoMirrors [mainMonitor] tenLikes wire0)))
     = [False, False, False]
   \<and> map fst (outbox (final (runMonitors postToDiscord (Some ''https://discord.example/hook'') plainSettings
       twoPagePlatform twoPageNet sinkDown (\<lambda>k. 2000) twoMirrors [mainMonitor] tenLikes wire0)))
     = map fst (outbox (final (runMonitors postToDiscord (Some ''https://discord.example/hook'') plainSettings
       twoPagePlatform twoPageNet sinkUp (\<lambda>k. 2000) twoMirrors [mainMonitor] tenLikes wire0)))
   \<and> (\<exists>st. saved (runMonitors postToDiscord (Some ''https://discord.example/hook'') plainSettings
       twoPagePlatform twoPageNet sinkDown (\<lambda>k. 2000) twoMirrors [mainMonitor] tenLikes wire0) = Some st
          \<and> seenTweets st ''3'' = Some \<lparr>likes' = 1204, retweets' = 0, replies' = 0, lastChecked = 2000\<rparr>)"
proof -
  let ?run = "\<lambda>sink. runMonitors postToDiscord (Some ''https://discord.example/hook'') plainSettings
       twoPagePlatform twoPageNet sink (\<lambda>k. 2000) twoMirrors [mainMonitor] tenLikes wire0"
  note T = delivery_failure_blocks_nothing[of "Some ''https://discord.example/hook''" plainSettings
      twoPagePlatform twoPageNet sinkDown "\<lambda>k. 2000" twoMirrors "[mainMonitor]" tenLikes wire0 sinkUp]
  from T have a: "map fst (outbox (final (?run sinkDown))) = map fst (outbox (final (?run sinkUp)))"
    by (rule conjunct1[OF conjunct2])
  have "Some ''https://discord.example/hook'' \<noteq> None \<and> Some ''https://discord.example/hook'' \<noteq> Some []"
    by simp
  with T[THEN conjunct2, THEN conjunct2, THEN conjunct2, THEN conjunct2, THEN conjunct1]
  have b: "saved (?run sinkDown) = Some (monitorState (final (?run sinkDown)))"
    by (rule mp)
  from down_run a b show ?thesis by simp
qed

text \<open>
  With the earlier \<open>postToDiscord\<close> the same loop body is left by the exception: the entry
  of the record is not written, and \<open>runMonitors\<close> does not reach \<open>saveState\<close>.
\<close>

lemma processTweet_uncaught:
  assumes "decide (tractionThreshold env) now (monitorState c) tweet = Alerted why"
    and "isl (deliver (sink (length (outbox c))))"
  shows "fst (processTweet postToDiscord_uncaught env sink now monitor tweet c) \<noteq> None
       \<and> monitorState (snd (processTweet postToDiscord_uncaught env sink now monitor tweet c)) = monitorState c"
  using assms
  by (cases "deliver (sink (length (outbox c)))")
     (simp_all add: processTweet_def postToDiscord_uncaught_def Let_def)

section \<open>Properties of the Monitor State Store\<close>

lemma flatShapeD: "flatShape raw \<Longrightarrow> \<exists>es. raw = JObj [(''seenTweets'', JObj es)] \<and> isEntryMap (JObj es)"
  by (cases raw rule: flatShape.cases) auto

lemma nestedShapeD:
  "nestedShape raw \<Longrightarrow> \<exists>ms. raw = JObj [(''seenTweets'', JObj ms)] \<and> list_all (\<lambda>(m, tweets). isEntryMap tweets) ms"
  by (cases raw rule: nestedShape.cases) auto

lemma lastIdsShapeD:
  "lastIdsShape raw \<Longrightarrow> \<exists>ls. raw = JObj [(''lastIds'', JObj ls)] \<and> list_all (\<lambda>(m, ids). isIdList ids) ls"
  by (cases raw rule: lastIdsShape.cases) auto

lemma seenIdsShapeD: "seenIdsShape raw \<Longrightarrow> \<exists>ids. raw = JObj [(''seenIds'', ids)] \<and> isIdList ids"
  by (cases raw rule: seenIdsShape.cases) auto


lemma migrate_flat_fixed:
  assumes "es = [] \<or> hasLikes (snd (hd es))"
  shows "migrate toStr clock (JObj [(''seenTweets'', JObj es)]) = JObj [(''seenTweets'', JObj es)]"
proof (cases es)
  case Nil
  then show ?thesis by (simp add: migrate_def getProp_def)
next
  case (Cons kv others)
  with assms show ?thesis
    by (cases kv) (auto simp: migrate_def getProp_def)
qed

lemma setProp_all:
  "list_all (\<lambda>(k, v). P v) es \<Longrightarrow> P v \<Longrightarrow> list_all (\<lambda>(k, v). P v) (setProp k v es)"
  by (induction es) auto

lemma migrateIds_all:
  "list_all (\<lambda>(k, v). hasLikes v) (fst acc) \<Longrightarrow>
   list_all (\<lambda>(k, v). hasLikes v) (fst (migrateIds toStr clock ids acc))"
proof (induction ids arbitrary: acc)
  case Nil
  then show ?case by (simp add: migrateIds_def)
next
  case (Cons i ids)
  obtain seen n where acc: "acc = (seen, n)" by (cases acc)
  let ?acc' = "(setProp (propertyKey toStr i) (dummyStats (clock n)) seen, Suc n)"
  have "hasLikes (dummyStats (clock n))"
    by (simp add: dummyStats_def getProp_def hasLikes_def)
  with Cons.prems acc have "list_all (\<lambda>(k, v). hasLikes v) (fst ?acc')"
    by (simp add: setProp_all)
  from Cons.IH[OF this] acc show ?case by (simp add: migrateIds_def)
qed

lemma lastIds_fold_all:
  "list_all (\<lambda>(k, v). hasLikes v) (fst acc) \<Longrightarrow>
   list_all (\<lambda>(k, v). hasLikes v)
     (fst (fold (\<lambda>(k, ids) acc. case ids of JArr xs \<Rightarrow> migrateIds toStr clock xs acc | other \<Rightarrow> acc) ls acc))"
proof (induction ls arbitrary: acc)
  case Nil
  then show ?case by simp
next
  case (Cons kids ls)
  obtain k ids where kids: "kids = (k, ids)" by (cases kids)
  have "list_all (\<lambda>(k, v). hasLikes v)
          (fst (case ids of JArr xs \<Rightarrow> migrateIds toStr clock xs acc | other \<Rightarrow> acc))"
    using Cons.prems by (cases ids) (simp_all add: migrateIds_all)
  from Cons.IH[OF this] kids show ?case by simp
qed

lemma all_likes_fixed:
  assumes "list_all (\<lambda>(k, v). hasLikes v) es"
  shows "migrate toStr clock (JObj [(''seenTweets'', JObj es)]) = JObj [(''seenTweets'', JObj es)]"
proof -
  from assms have "es = [] \<or> hasLikes (snd (hd es))"
    by (cases es) auto
  then show ?thesis by (rule migrate_flat_fixed)
qed

lemma migrateLastIds_fixed:
  "migrate toStr clock' (migrateLastIds toStr clock l) = migrateLastIds toStr clock l"
  unfolding migrateLastIds_def
  by (rule all_likes_fixed) (simp add: lastIds_fold_all)

lemma isTweetStats_likes: "isTweetStats v \<Longrightarrow> hasLikes v"
  by (cases v) (auto simp: isTweetStats_def isNumber_def getProp_def hasLikes_def split: option.splits)

lemma isEntryMap_all:
  "isEntryMap tweets \<Longrightarrow> list_all (\<lambda>(k, v). hasLikes v) (ownEntries tweets)"
  by (cases tweets) (auto simp: isEntryMap_def list_all_iff dest: isTweetStats_likes)

lemma pour_all:
  "list_all (\<lambda>(k, v). hasLikes v) es \<Longrightarrow>
   list_all (\<lambda>(k, v). hasLikes v) acc \<Longrightarrow>
   list_all (\<lambda>(k, v). hasLikes v)
     (fold (\<lambda>(tweetId, stats) acc'. setProp tweetId stats acc') es acc)"
proof (induction es arbitrary: acc)
  case Nil
  then show ?case by simp
next
  case (Cons kv es)
  obtain k v where kv: "kv = (k, v)" by (cases kv)
  with Cons.prems have "list_all (\<lambda>(k, v). hasLikes v) (setProp k v acc)"
    by (simp add: setProp_all)
  with Cons kv show ?case by simp
qed

lemma flatten_fold_all:
  "list_all (\<lambda>(m, tweets). isEntryMap tweets) ms \<Longrightarrow>
   list_all (\<lambda>(k, v). hasLikes v) acc \<Longrightarrow>
   list_all (\<lambda>(k, v). hasLikes v)
     (fold (\<lambda>(monitorKey, tweets) acc.
              fold (\<lambda>(tweetId, stats) acc'. setProp tweetId stats acc') (ownEntries tweets) acc) ms acc)"
proof (induction ms arbitrary: acc)
  case Nil
  then show ?case by simp
next
  case (Cons mt ms)
  obtain m tweets where mt: "mt = (m, tweets)" by (cases mt)
  with Cons.prems have "isEntryMap tweets" by simp
  from pour_all[OF isEntryMap_all[OF this] Cons.prems(2)] Cons.IH Cons.prems(1) mt
  show ?case by simp
qed

lemma flatten_fixed:
  assumes "list_all (\<lambda>(m, tweets). isEntryMap tweets) ms"
  shows "migrate toStr clock' (flatten (JObj ms)) = flatten (JObj ms)"
  unfolding flatten_def
  by (rule all_likes_fixed) (simp add: flatten_fold_all[OF assms])

lemma migrate_nested:
  "migrate toStr clock (JObj [(''seenTweets'', JObj ms)]) = JObj [(''seenTweets'', JObj ms)]
   \<or> migrate toStr clock (JObj [(''seenTweets'', JObj ms)]) = flatten (JObj ms)"
  by (cases ms) (auto simp: migrate_def getProp_def Let_def)

lemma migrate_seenIds: "migrate toStr clock (JObj [(''seenIds'', ids)]) = JObj [(''seenIds'', ids)]"
  by (simp add: migrate_def getProp_def)

lemma migrate_lastIds:
  "migrate toStr clock (JObj [(''lastIds'', JObj ls)]) = migrateLastIds toStr clock (JObj ls)"
  by (simp add: migrate_def getProp_def)

text \<open>
  Claim C8.  On each persisted shape (identifiers listed per monitor under \<open>lastIds\<close>,
  the older single list under \<open>seenIds\<close>, the map nested by monitor key, the flat map of
  entries) a second migration changes nothing, whatever the clock shows, and a flat state
  is returned as it is.
\<close>

theorem migrate_idempotent:
  assumes "lastIdsShape raw \<or> seenIdsShape raw \<or> nestedShape raw \<or> flatShape raw"
  shows "migrate toStr clock' (migrate toStr clock raw) = migrate toStr clock raw
       \<and> (flatShape raw \<longrightarrow> migrate toStr clock raw = raw)"
proof -
  have fixed: "migrate toStr c raw = raw" if "flatShape raw" for c
  proof -
    from flatShapeD[OF that] obtain es where raw: "raw = JObj [(''seenTweets'', JObj es)]"
      and em: "isEntryMap (JObj es)" by auto
    from isEntryMap_all[OF em] show ?thesis
      unfolding raw by (simp add: all_likes_fixed)
  qed
  from assms consider (ids) "lastIdsShape raw" | (old) "seenIdsShape raw"
    | (nested) "nestedShape raw" | (flat) "flatShape raw" by auto
  then have "migrate toStr clock' (migrate toStr clock raw) = migrate toStr clock raw"
  proof cases
    case ids
    from lastIdsShapeD[OF ids] obtain ls where "raw = JObj [(''lastIds'', JObj ls)]" by auto
    then show ?thesis by (simp add: migrate_lastIds migrateLastIds_fixed)
  next
    case old
    from seenIdsShapeD[OF old] obtain ids where "raw = JObj [(''seenIds'', ids)]" by auto
    then show ?thesis by (simp add: migrate_seenIds)
  next
    case nested
    from nestedShapeD[OF nested] obtain ms where raw: "raw = JObj [(''seenTweets'', JObj ms)]"
      and all: "list_all (\<lambda>(m, tweets). isEntryMap tweets) ms" by auto
    from migrate_nested[of toStr clock ms] show ?thesis
    proof
      assume same: "migrate toStr clock (JObj [(''seenTweets'', JObj ms)]) = JObj [(''seenTweets'', JObj ms)]"
      have "migrate toStr clock' (JObj [(''seenTweets'', JObj ms)]) = JObj [(''seenTweets'', JObj ms)]
            \<or> migrate toStr clock' (JObj [(''seenTweets'', JObj ms)]) = flatten (JObj ms)"
        by (rule migrate_nested)
      moreover have "migrate toStr clock' (JObj [(''seenTweets'', JObj ms)])
             = migrate toStr clock (JObj [(''seenTweets'', JObj ms)])"
        by (simp add: migrate_def getProp_def)
      ultimately show ?thesis unfolding raw using same by simp
    next
      assume "migrate toStr clock (JObj [(''seenTweets'', JObj ms)]) = flatten (JObj ms)"
      then show ?thesis unfolding raw by (simp add: flatten_fixed[OF all])
    qed
  next
    case flat
    from fixed[OF this] show ?thesis by simp
  qed
  with fixed show ?thesis by simp
qed

lemma legacyIds_migrated:
  "migrate toStr clock legacyIds
     = JObj [(''seenTweets'', JObj [(''1'', dummyStats (clock 0)), (''2'', dummyStats (clock 2))])]"
  by (simp add: legacyIds_def migrate_def getProp_def migrateLastIds_def migrateIds_def propertyKey_def
        numeral_2_eq_2)

lemma legacyNested_migrated:
  "migrate toStr clock legacyNested
     = JObj [(''seenTweets'', JObj [(''1'', statsJson 12), (''2'', statsJson 3)])]"
  by (simp add: legacyNested_def migrate_def getProp_def flatten_def statsJson_def hasLikes_def)

theorem migrate_idempotent_witness:
  "migrate (\<lambda>v. []) (\<lambda>n. 9000) (migrate (\<lambda>v. []) (\<lambda>n. 5000 + int n) legacyIds)
     = JObj [(''seenTweets'', JObj [(''1'', dummyStats 5000), (''2'', dummyStats 5002)])]
   \<and> migrate (\<lambda>v. []) (\<lambda>n. 9000) (migrate (\<lambda>v. []) (\<lambda>n. 5000 + int n) legacyNested)
     = JObj [(''seenTweets'', JObj [(''1'', statsJson 12), (''2'', statsJson 3)])]
   \<and> flatShape (migrate (\<lambda>v. []) (\<lambda>n. 5000 + int n) legacyNested)"
proof -
  let ?toStr = "\<lambda>v::json. []::string" and ?clock = "\<lambda>n. 5000 + int n" and ?later = "\<lambda>n::nat. 9000::int"
  have "lastIdsShape legacyIds" by (simp add: legacyIds_def isIdList_def)
  then have "lastIdsShape legacyIds \<or> seenIdsShape legacyIds \<or> nestedShape legacyIds \<or> flatShape legacyIds"
    by simp
  from migrate_idempotent[OF this, of ?toStr ?later ?clock]
  have a: "migrate ?toStr ?later (migrate ?toStr ?clock legacyIds) = migrate ?toStr ?clock legacyIds"
    by simp
  have "nestedShape legacyNested"
    by (simp add: legacyNested_def isEntryMap_def isTweetStats_def isNumber_def statsJson_def)
  then have "lastIdsShape legacyNested \<or> seenIdsShape legacyNested \<or> nestedShape legacyNested \<or> flatShape legacyNested"
    by simp
  from migrate_idempotent[OF this, of ?toStr ?later ?clock]
  have b: "migrate ?toStr ?later (migrate ?toStr ?clock legacyNested) = migrate ?toStr ?clock legacyNested"
    by simp
  have c: "flatShape (migrate ?toStr ?clock legacyNested)"
    by (simp add: legacyNested_migrated isEntryMap_def isTweetStats_def isNumber_def statsJson_def)
  from a b c show ?thesis
    by (simp add: legacyIds_migrated legacyNested_migrated)
qed

section \<open>Properties of the Scheduler\<close>

text \<open>
  Claim C9, as stated, fails.  After the first run the timer is set; when it fires twice
  before the monitor cycle of the first tick has settled, two monitor cycles are pending
  at once.  When the relationship check of a tick is still pending at the next tick, a
  monitor cycle runs beside it.
\<close>

theorem runs_never_overlap_counterexample:
  "exec 3600 schedulerStart [PollEnds 0 1700000000000, VipEnds 0 True 1700000060000, Fire, Fire]
     = Some \<lparr>tasks = [\<lparr>initial = False, awaiting = Polling\<rparr>, \<lparr>initial = False, awaiting = Polling\<rparr>],
             timerSet = True, lastVipCheck = 1700000060000\<rparr>
   \<and> exec 3600 schedulerStart
        [PollEnds 0 1700000000000, VipEnds 0 False 1700000060000, Fire, PollEnds 0 1700000200000, Fire]
     = Some \<lparr>tasks = [\<lparr>initial = False, awaiting = CheckingVips\<rparr>, \<lparr>initial = False, awaiting = Polling\<rparr>],
             timerSet = True, lastVipCheck = 0\<rparr>"
  by (simp add: schedulerStart_def step_def finish_def)

lemma finish_tasks: "t \<in> set (tasks (finish i s)) \<Longrightarrow> t \<in> set (tasks s)"
  by (auto simp: finish_def dest: in_set_takeD in_set_dropD)

lemma handover_initial:
  assumes "i < length ts" "t \<in> set (ts[i := (ts ! i)\<lparr>awaiting := j\<rparr>])"
  shows "\<exists>u \<in> set ts. initial t = initial u"
proof -
  from assms(2) have "t = (ts ! i)\<lparr>awaiting := j\<rparr> \<or> t \<in> set ts"
    using set_update_subset_insert[of ts i "(ts ! i)\<lparr>awaiting := j\<rparr>"] by auto
  then show ?thesis
  proof
    assume "t = (ts ! i)\<lparr>awaiting := j\<rparr>"
    then have "initial t = initial (ts ! i)" by simp
    with assms(1) show ?thesis using nth_mem by blast
  qed blast
qed

lemma step_bootInv:
  assumes "bootInv s" "step v s ev = Some s'"
  shows "bootInv s'"
proof (cases "timerSet s")
  case True
  with assms(1) have all: "\<forall>t \<in> set (tasks s). \<not> initial t" by (simp add: bootInv_def)
  have fin: "bootInv (finish i s0)" if "timerSet s0" "tasks s0 = tasks s" for i s0
  proof -
    from that have "timerSet (finish i s0)" by (simp add: finish_def)
    moreover from all that(2) have "\<forall>t \<in> set (tasks (finish i s0)). \<not> initial t"
      using finish_tasks[of _ i s0] by auto
    ultimately show ?thesis by (simp add: bootInv_def)
  qed
  show ?thesis
  proof (cases ev)
    case Fire
    with assms(2) True all show ?thesis by (auto simp: step_def bootInv_def)
  next
    case (PollEnds i now)
    with assms(2) have i: "i < length (tasks s)" by (simp add: step_def split: if_splits)
    show ?thesis
    proof (cases "now - lastVipCheck s \<ge> v * 1000")
      case due: True
      with PollEnds assms(2) have s': "s' = s\<lparr>tasks := (tasks s)[i := (tasks s ! i)\<lparr>awaiting := CheckingVips\<rparr>]\<rparr>"
        by (simp add: step_def split: if_splits)
      have "\<forall>t \<in> set (tasks s'). \<not> initial t"
        unfolding s' using handover_initial[OF i] all by auto
      with True s' show ?thesis by (simp add: bootInv_def)
    next
      case False
      with PollEnds assms(2) have "s' = finish i s" by (simp add: step_def split: if_splits)
      with fin[OF True refl] show ?thesis by simp
    qed
  next
    case (VipEnds i ok now)
    with assms(2) have "s' = finish i (if ok then s\<lparr>lastVipCheck := now\<rparr> else s)"
      by (simp add: step_def split: if_splits)
    moreover have "timerSet (if ok then s\<lparr>lastVipCheck := now\<rparr> else s)"
      "tasks (if ok then s\<lparr>lastVipCheck := now\<rparr> else s) = tasks s"
      using True by simp_all
    ultimately show ?thesis using fin by simp
  qed
next
  case False
  with assms(1) obtain j where ts: "tasks s = [\<lparr>initial = True, awaiting = j\<rparr>]"
    by (auto simp: bootInv_def)
  show ?thesis
  proof (cases ev)
    case Fire
    with assms(2) False show ?thesis by (simp add: step_def)
  next
    case (PollEnds i now)
    with assms(2) ts False show ?thesis
      by (auto simp: step_def bootInv_def finish_def split: if_splits)
  next
    case (VipEnds i ok now)
    with assms(2) ts False show ?thesis
      by (auto simp: step_def bootInv_def finish_def split: if_splits)
  qed
qed

lemma exec_bootInv: "bootInv s \<Longrightarrow> exec v s evs = Some s' \<Longrightarrow> bootInv s'"
proof (induction evs arbitrary: s)
  case Nil
  then show ?case by simp
next
  case (Cons ev evs)
  then show ?case
    by (cases "step v s ev") (auto dest: step_bootInv)
qed


lemma start_bootInv: "bootInv schedulerStart"
  by (simp add: bootInv_def schedulerStart_def)

lemma step_not_fire_length:
  "ev \<noteq> Fire \<Longrightarrow> step v s ev = Some s' \<Longrightarrow> length (tasks s') \<le> length (tasks s)"
  by (cases ev) (auto simp: step_def finish_def split: if_splits)

lemma step_awaited:
  "step v s (PollEnds i now) = Some s' \<Longrightarrow> i < length (tasks s) \<and> awaiting (tasks s ! i) = Polling"
  "step v s (VipEnds i ok now) = Some s' \<Longrightarrow> i < length (tasks s) \<and> awaiting (tasks s ! i) = CheckingVips"
  by (auto simp: step_def split: if_splits)

text \<open>
  Claim C9, amended.  The first run awaits its monitor cycle and then its relationship
  check before the timer is set, so it is the only task until then and overlaps with no
  timer tick.  Once the timer is set it starts a new tick, beginning with a monitor cycle,
  whether or not earlier ticks are still pending; nothing but the timer starts a tick.
  Within a task the jobs follow each other: only the job that the task awaits can settle,
  and the relationship check is awaited only after the monitor cycle of the same task has
  settled.
\<close>

theorem ticks_follow_first_run:
  assumes "exec v schedulerStart evs = Some s"
  shows "(\<not> timerSet s \<longrightarrow> (\<exists>j. tasks s = [\<lparr>initial = True, awaiting = j\<rparr>]) \<and> step v s Fire = None)
       \<and> (timerSet s \<longrightarrow> (\<forall>t \<in> set (tasks s). \<not> initial t) \<and>
            step v s Fire = Some (s\<lparr>tasks := tasks s @ [\<lparr>initial = False, awaiting = Polling\<rparr>]\<rparr>))
       \<and> (\<forall>ev s'. ev \<noteq> Fire \<and> step v s ev = Some s' \<longrightarrow> length (tasks s') \<le> length (tasks s))
       \<and> (\<forall>i now s'. step v s (PollEnds i now) = Some s' \<longrightarrow>
            i < length (tasks s) \<and> awaiting (tasks s ! i) = Polling)
       \<and> (\<forall>i ok now s'. step v s (VipEnds i ok now) = Some s' \<longrightarrow>
            i < length (tasks s) \<and> awaiting (tasks s ! i) = CheckingVips)"
proof -
  from exec_bootInv[OF start_bootInv assms] have inv: "bootInv s" .
  have a: "\<not> timerSet s \<longrightarrow> (\<exists>j. tasks s = [\<lparr>initial = True, awaiting = j\<rparr>]) \<and> step v s Fire = None"
    using inv by (simp add: bootInv_def step_def)
  have b: "timerSet s \<longrightarrow> (\<forall>t \<in> set (tasks s). \<not> initial t) \<and>
            step v s Fire = Some (s\<lparr>tasks := tasks s @ [\<lparr>initial = False, awaiting = Polling\<rparr>]\<rparr>)"
    using inv by (simp add: bootInv_def step_def)
  have c: "\<forall>ev s'. ev \<noteq> Fire \<and> step v s ev = Some s' \<longrightarrow> length (tasks s') \<le> length (tasks s)"
    using step_not_fire_length by auto
  have d: "\<forall>i now s'. step v s (PollEnds i now) = Some s' \<longrightarrow>
            i < length (tasks s) \<and> awaiting (tasks s ! i) = Polling"
    using step_awaited(1) by (intro allI impI)
  have e: "\<forall>i ok now s'. step v s (VipEnds i ok now) = Some s' \<longrightarrow>
            i < length (tasks s) \<and> awaiting (tasks s ! i) = CheckingVips"
    using step_awaited(2) by (intro allI impI)
  show ?thesis by (intro conjI a b c d e)
qed

theorem ticks_follow_first_run_witness:
  "exec 3600 schedulerStart [PollEnds 0 1700000000000]
     = Some \<lparr>tasks = [\<lparr>initial = True, awaiting = CheckingVips\<rparr>], timerSet = False, lastVipCheck = 0\<rparr>
   \<and> step 3600 \<lparr>tasks = [\<lparr>initial = True, awaiting = CheckingVips\<rparr>], timerSet = False, lastVipCheck = 0\<rparr> Fire
     = None
   \<and> exec 3600 schedulerStart [PollEnds 0 1700000000000, VipEnds 0 True 1700000060000]
     = Some \<lparr>tasks = [], timerSet = True, lastVipCheck = 1700000060000\<rparr>
   \<and> step 3600 \<lparr>tasks = [], timerSet = True, lastVipCheck = 1700000060000\<rparr> Fire
     = Some \<lparr>tasks = [\<lparr>initial = False, awaiting = Polling\<rparr>], timerSet = True, lastVipCheck = 1700000060000\<rparr>"
proof -
  let ?s1 = "\<lparr>tasks = [\<lparr>initial = True, awaiting = CheckingVips\<rparr>], timerSet = False, lastVipCheck = 0\<rparr>"
  let ?s2 = "\<lparr>tasks = [], timerSet = True, lastVipCheck = 1700000060000\<rparr>"
  have e1: "exec 3600 schedulerStart [PollEnds 0 1700000000000] = Some ?s1"
    by (simp add: schedulerStart_def step_def finish_def)
  have e2: "exec 3600 schedulerStart [PollEnds 0 1700000000000, VipEnds 0 True 1700000060000] = Some ?s2"
    by (simp add: schedulerStart_def step_def finish_def)
  from ticks_follow_first_run[OF e1, THEN conjunct1] have f1: "step 3600 ?s1 Fire = None"
    by simp
  from ticks_follow_first_run[OF e2, THEN conjunct2, THEN conjunct1]
  have f2: "step 3600 ?s2 Fire = Some (?s2\<lparr>tasks := tasks ?s2 @ [\<lparr>initial = False, awaiting = Polling\<rparr>]\<rparr>)"
    by simp
  from e1 e2 f1 f2 show ?thesis by simp
qed

end
